theory Spec2Isabelle
  imports Complex_Main "HOL-Library.Product_Lexorder" "HOL-Library.Sublist" "HOL-Library.Multiset"
begin

section \<open>Data model\<close>

text \<open>
  The program (\<^verbatim>\<open>app.py\<close>) works on plain tuples. A page word is the tuple
  \<^verbatim>\<open>(text, x0, y0, x1, y1)\<close> with \<^verbatim>\<open>y0\<close> the top and \<^verbatim>\<open>y1\<close> the bottom coordinate;
  a table cell is the tuple \<^verbatim>\<open>(bbox, text)\<close> where either component may be \<^verbatim>\<open>None\<close>;
  a row is a list of cells and a table a list of rows. Python floats are modelled by
  the reals (no rounding), Python strings by \<^typ>\<open>string\<close> restricted to ASCII text.
\<close>

type_synonym word = "string \<times> real \<times> real \<times> real \<times> real"
type_synonym bbox = "real \<times> real \<times> real \<times> real"
type_synonym cell = "bbox option \<times> string option"
type_synonym row = "cell list"
type_synonym table = "row list"

fun w_text :: "word \<Rightarrow> string" where "w_text (t, x0, y0, x1, y1) = t"
fun w_x0 :: "word \<Rightarrow> real" where "w_x0 (t, x0, y0, x1, y1) = x0"
fun w_y0 :: "word \<Rightarrow> real" where "w_y0 (t, x0, y0, x1, y1) = y0"
fun w_x1 :: "word \<Rightarrow> real" where "w_x1 (t, x0, y0, x1, y1) = x1"
fun w_y1 :: "word \<Rightarrow> real" where "w_y1 (t, x0, y0, x1, y1) = y1"

section \<open>Column Mapper: \<^verbatim>\<open>find_column_for_word\<close>\<close>

text \<open>
  The loop \<^verbatim>\<open>for col_idx, (col_x0, col_x1) in enumerate(column_boundaries)\<close> with its early
  \<^verbatim>\<open>return col_idx\<close>; \<open>col_idx\<close> is the running index, \<open>-1\<close> the value after the loop.
  All three tests sit under the guard \<^verbatim>\<open>if overlap_end > overlap_start\<close>.
\<close>

fun find_column_from :: "nat \<Rightarrow> real \<Rightarrow> real \<Rightarrow> (real \<times> real) list \<Rightarrow> int" where
  "find_column_from col_idx word_x0 word_x1 [] = - 1"
| "find_column_from col_idx word_x0 word_x1 ((col_x0, col_x1) # column_boundaries) =
     (let word_center = (word_x0 + word_x1) / 2;
          overlap_start = max word_x0 col_x0;
          overlap_end = min word_x1 col_x1
      in if overlap_end > overlap_start then
           (let overlap_width = overlap_end - overlap_start;
                word_width = word_x1 - word_x0;
                col_width = col_x1 - col_x0
            in if word_width > 0 \<and> (overlap_width / word_width > 0.5 \<or> overlap_width / col_width > 0.5)
               then int col_idx
               else if word_x0 \<ge> col_x0 \<and> word_x1 \<le> col_x1 then int col_idx
               else if word_center \<ge> col_x0 \<and> word_center \<le> col_x1 then int col_idx
               else find_column_from (Suc col_idx) word_x0 word_x1 column_boundaries)
         else find_column_from (Suc col_idx) word_x0 word_x1 column_boundaries)"

definition find_column_for_word :: "real \<Rightarrow> real \<Rightarrow> (real \<times> real) list \<Rightarrow> int" where
  "find_column_for_word word_x0 word_x1 column_boundaries =
     find_column_from 0 word_x0 word_x1 column_boundaries"

text \<open>
  The four criteria as the specification words them, with no overlap guard: the overlap
  width is \<open>min word_x1 col_x1 - max word_x0 col_x0\<close>, whatever its sign.
\<close>

definition spec_overlap_width :: "real \<Rightarrow> real \<Rightarrow> real \<times> real \<Rightarrow> real" where
  "spec_overlap_width word_x0 word_x1 col = min word_x1 (snd col) - max word_x0 (fst col)"

definition spec_column_matches :: "real \<Rightarrow> real \<Rightarrow> real \<times> real \<Rightarrow> bool" where
  "spec_column_matches word_x0 word_x1 col =
     (spec_overlap_width word_x0 word_x1 col / (word_x1 - word_x0) > 0.5
      \<or> spec_overlap_width word_x0 word_x1 col / (snd col - fst col) > 0.5
      \<or> (fst col \<le> word_x0 \<and> word_x1 \<le> snd col)
      \<or> (fst col \<le> (word_x0 + word_x1) / 2 \<and> (word_x0 + word_x1) / 2 \<le> snd col))"

definition spans_overlap :: "real \<Rightarrow> real \<Rightarrow> real \<times> real \<Rightarrow> bool" where
  "spans_overlap word_x0 word_x1 col = (max word_x0 (fst col) < min word_x1 (snd col))"

section \<open>Row Segmenter: \<^verbatim>\<open>separate_rows_by_vertical_gap\<close>\<close>

text \<open>
  One iteration of \<^verbatim>\<open>for i in range(1, len(sorted_words))\<close> on the loop state
  \<open>(rows, current_row, current_row_max_y1)\<close>.
\<close>

fun gap_step :: "real \<Rightarrow> word \<Rightarrow> word list list \<times> word list \<times> real
    \<Rightarrow> word list list \<times> word list \<times> real" where
  "gap_step gap_threshold w (rows, current_row, current_row_max_y1) =
     (let vertical_gap = w_y0 w - current_row_max_y1
      in if vertical_gap > gap_threshold
         then (rows @ [sort_key w_x0 current_row], [w], w_y1 w)
         else (rows, current_row @ [w], max current_row_max_y1 (w_y1 w)))"

definition gap_threshold_of :: "word list \<Rightarrow> real" where
  "gap_threshold_of sorted_words =
     (let sample_words = take (min (length sorted_words) 10) sorted_words;
          word_heights = filter (\<lambda>h. h > 0) (map (\<lambda>w. w_y1 w - w_y0 w) sample_words);
          avg_word_height = (if word_heights \<noteq> []
                             then sum_list word_heights / real (length word_heights) else 10)
      in avg_word_height * 0.7)"

definition separate_rows_by_vertical_gap :: "word list \<Rightarrow> word list list" where
  "separate_rows_by_vertical_gap cell_words =
     (if cell_words = [] then []
      else case sort_key (\<lambda>w. (w_y0 w, w_x0 w)) cell_words of
             [] \<Rightarrow> []
           | w0 # rest \<Rightarrow>
               (case fold (gap_step (gap_threshold_of (w0 # rest))) rest ([], [w0], w_y1 w0) of
                  (rows, current_row, current_row_max_y1) \<Rightarrow>
                    if current_row \<noteq> [] then rows @ [sort_key w_x0 current_row] else rows))"

text \<open>
  The segmentation law in the words of the specification, on the sequence sorted by
  \<open>(top, x0)\<close>: inside a logical row no word lies more than the threshold below the
  running maximum bottom of the words before it; the first word of the next row does.
\<close>

definition running_max_bottom :: "word list \<Rightarrow> real" where
  "running_max_bottom ws = Max (w_y1 ` set ws)"

definition row_unbroken :: "real \<Rightarrow> word list \<Rightarrow> bool" where
  "row_unbroken thr seg =
     (seg \<noteq> [] \<and> (\<forall>j. 0 < j \<and> j < length seg \<longrightarrow>
        \<not> (w_y0 (seg ! j) - running_max_bottom (take j seg) > thr)))"

definition rows_broken :: "real \<Rightarrow> word list list \<Rightarrow> bool" where
  "rows_broken thr segs =
     (\<forall>k. Suc k < length segs \<longrightarrow>
        w_y0 (hd (segs ! Suc k)) - running_max_bottom (segs ! k) > thr)"

section \<open>Text primitives\<close>

text \<open>
  The character classes of Python's \<^verbatim>\<open>str\<close> methods and \<^verbatim>\<open>re\<close> patterns on ASCII text:
  whitespace (\<^verbatim>\<open>\s\<close>, \<^verbatim>\<open>strip\<close>, \<^verbatim>\<open>split\<close>) is code 9 to 13 and 28 to 32, \<^verbatim>\<open>\d\<close> is
  \<^verbatim>\<open>0-9\<close>, \<^verbatim>\<open>\w\<close> is a letter, a digit or the underscore.
\<close>

definition is_space :: "char \<Rightarrow> bool" where
  "is_space c = ((9 \<le> (of_char c :: nat) \<and> (of_char c :: nat) \<le> 13)
               \<or> (28 \<le> (of_char c :: nat) \<and> (of_char c :: nat) \<le> 32))"

definition is_digit :: "char \<Rightarrow> bool" where
  "is_digit c = (48 \<le> (of_char c :: nat) \<and> (of_char c :: nat) \<le> 57)"

definition is_letter :: "char \<Rightarrow> bool" where
  "is_letter c = ((65 \<le> (of_char c :: nat) \<and> (of_char c :: nat) \<le> 90)
                \<or> (97 \<le> (of_char c :: nat) \<and> (of_char c :: nat) \<le> 122))"

definition is_word_char :: "char \<Rightarrow> bool" where
  "is_word_char c = (is_letter c \<or> is_digit c \<or> c = CHR ''_'')"

definition to_lower :: "char \<Rightarrow> char" where
  "to_lower c = (if 65 \<le> (of_char c :: nat) \<and> (of_char c :: nat) \<le> 90
                 then char_of (of_char c + (32::nat)) else c)"

definition lower :: "string \<Rightarrow> string" where
  "lower s = map to_lower s"

definition strip :: "string \<Rightarrow> string" where
  "strip s = rev (dropWhile is_space (rev (dropWhile is_space s)))"

text \<open>\<^verbatim>\<open>s.split()\<close>: the maximal runs of non-whitespace characters.\<close>

fun split_from :: "string \<Rightarrow> string \<Rightarrow> string list" where
  "split_from cur [] = (if cur = [] then [] else [cur])"
| "split_from cur (c # cs) =
     (if is_space c then (if cur = [] then split_from [] cs else cur # split_from [] cs)
      else split_from (cur @ [c]) cs)"

definition split :: "string \<Rightarrow> string list" where
  "split s = split_from [] s"

text \<open>\<^verbatim>\<open>" ".join(words)\<close>.\<close>

fun join_space :: "string list \<Rightarrow> string" where
  "join_space [] = []"
| "join_space [w] = w"
| "join_space (w # ws) = w @ '' '' @ join_space ws"

text \<open>
  \<^verbatim>\<open>re.search(r':\s*\S', s)\<close>: somewhere a colon, then any whitespace, then a
  non-whitespace character.
\<close>

fun re_search_metadata :: "string \<Rightarrow> bool" where
  "re_search_metadata [] = False"
| "re_search_metadata (c # cs) =
     ((c = CHR '':'' \<and> dropWhile is_space cs \<noteq> []) \<or> re_search_metadata cs)"

text \<open>Truth value of \<^verbatim>\<open>cell_text\<close>: neither \<^verbatim>\<open>None\<close> nor the empty string.\<close>

fun truthy :: "string option \<Rightarrow> bool" where
  "truthy None = False"
| "truthy (Some s) = (s \<noteq> [])"

section \<open>Header Detector (in \<^verbatim>\<open>print_formatted_output\<close>)\<close>

definition COLUMN_KEYWORDS :: "string list" where
  "COLUMN_KEYWORDS =
     [''item'', ''description'', ''product'', ''name'', ''particulars'',
      ''qty'', ''quantity'', ''rate'', ''price'', ''amount'', ''total'',
      ''gst'', ''tax'', ''hsn'', ''code'', ''unit'', ''net'', ''discount'']"

definition row_text_content :: "row \<Rightarrow> string list" where
  "row_text_content row_cells =
     List.map_filter (\<lambda>(cell_bbox, cell_text).
        case cell_text of None \<Rightarrow> None
        | Some s \<Rightarrow> if s \<noteq> [] then Some (lower s) else None) row_cells"

definition none_count_in_row :: "row \<Rightarrow> nat" where
  "none_count_in_row row_cells = length (filter (\<lambda>(cell_bbox, cell_text). cell_bbox = None) row_cells)"

text \<open>
  One iteration of \<^verbatim>\<open>for cell_text_in_row_content in row_text_content\<close> on
  \<open>(matched_keyword_count, row_contains_metadata_pattern)\<close>; the inner loop adds one for
  each keyword that is a substring of the text.
\<close>

definition keyword_hits :: "string \<Rightarrow> nat" where
  "keyword_hits txt = length (filter (\<lambda>keyword. sublist keyword txt) COLUMN_KEYWORDS)"

fun keyword_scan :: "string \<Rightarrow> nat \<times> bool \<Rightarrow> nat \<times> bool" where
  "keyword_scan txt (matched_keyword_count, row_contains_metadata_pattern) =
     (if txt \<noteq> [] \<and> strip txt \<noteq> [] then
        (matched_keyword_count + keyword_hits txt,
         row_contains_metadata_pattern \<or> re_search_metadata txt)
      else (matched_keyword_count, row_contains_metadata_pattern))"

definition row_is_header :: "row \<Rightarrow> bool" where
  "row_is_header row_cells =
     (case fold keyword_scan (row_text_content row_cells) (0, False) of
        (matched_keyword_count, row_contains_metadata_pattern) \<Rightarrow>
          matched_keyword_count \<ge> 3 \<and> \<not> row_contains_metadata_pattern)"

text \<open>
  The header rule in the words of the specification, on the cell texts as they are in
  the table: the number of (non-empty cell, keyword) pairs with the keyword inside the
  lower-cased text, and whether some cell text matches the metadata pattern.
\<close>

definition spec_keyword_count :: "row \<Rightarrow> nat" where
  "spec_keyword_count row_cells =
     sum_list (map (\<lambda>c. case snd c of None \<Rightarrow> 0 | Some s \<Rightarrow> keyword_hits (lower s)) row_cells)"

definition spec_row_has_metadata :: "row \<Rightarrow> bool" where
  "spec_row_has_metadata row_cells =
     list_ex (\<lambda>c. case snd c of None \<Rightarrow> False | Some s \<Rightarrow> re_search_metadata s) row_cells"

definition spec_row_qualifies :: "row \<Rightarrow> bool" where
  "spec_row_qualifies row_cells = (spec_keyword_count row_cells \<ge> 3 \<and> \<not> spec_row_has_metadata row_cells)"

definition spec_header_index :: "table \<Rightarrow> int" where
  "spec_header_index table_rows =
     (case filter (\<lambda>i. spec_row_qualifies (table_rows ! i)) [0..<length table_rows] of
        [] \<Rightarrow> - 1
      | q # qs \<Rightarrow> int (last (q # qs)))"

section \<open>Corruption Marker (in \<^verbatim>\<open>print_formatted_output\<close>)\<close>

text \<open>
  \<^verbatim>\<open>current_cell_words\<close> and \<^verbatim>\<open>avg_word_width\<close> are local variables of
  \<^verbatim>\<open>print_formatted_output\<close>, assigned only inside the horizontal-gap block and read
  after it. They keep their value from one cell, row, table and page to the next, and
  are unbound (\<open>None\<close>) until first assigned; reading an unbound local raises
  \<^verbatim>\<open>UnboundLocalError\<close>.
\<close>

datatype error = UnboundLocalError | IndexError

record locals =
  current_cell_words :: "word list option"
  avg_word_width :: "real option"

definition unbound_locals :: locals where
  "unbound_locals = \<lparr>current_cell_words = None, avg_word_width = None\<rparr>"

definition should_mark_based_on_content_and_newlines :: "string option \<Rightarrow> bool" where
  "should_mark_based_on_content_and_newlines cell_text =
     (case cell_text of None \<Rightarrow> False
      | Some s \<Rightarrow>
          s \<noteq> [] \<and> length (filter (\<lambda>c. c = CHR 0x0A) s) > 3
          \<and> list_ex is_digit s \<and> list_ex is_letter s
          \<and> list_ex (\<lambda>c. \<not> is_word_char c \<and> \<not> is_space c) s
          \<and> length (split s) > 1)"

fun word_in_cell :: "bbox \<Rightarrow> word \<Rightarrow> bool" where
  "word_in_cell (cell_x0, cell_y0, cell_x1, cell_y1) (word_text, word_x0, word_y0, word_x1, word_y1) =
     (word_x0 \<ge> cell_x0 - 2 \<and> word_x1 \<le> cell_x1 + 2 \<and> word_y0 \<ge> cell_y0 - 2 \<and> word_y1 \<le> cell_y1 + 2)"

text \<open>The gaps \<^verbatim>\<open>ws[k+1][1] - ws[k][3]\<close> for \<^verbatim>\<open>k in range(len(ws) - 1)\<close>.\<close>

definition gaps :: "word list \<Rightarrow> real list" where
  "gaps ws = map (\<lambda>k. w_x0 (ws ! (k + 1)) - w_x1 (ws ! k)) [0..<length ws - 1]"

text \<open>
  Condition (b), the block under \<^verbatim>\<open>if cell_text and cell_bbox\<close>: it returns the flag
  \<^verbatim>\<open>should_mark_based_on_horizontal_gap\<close> and the locals as the block leaves them.
\<close>

definition horizontal_gap_check :: "word list \<Rightarrow> locals \<Rightarrow> cell \<Rightarrow> bool \<times> locals" where
  "horizontal_gap_check page_words loc c =
     (case c of (cell_bbox, cell_text) \<Rightarrow>
        (case cell_bbox of
           None \<Rightarrow> (False, loc)
         | Some bb \<Rightarrow>
             if truthy cell_text then
               (let collected = filter (word_in_cell bb) page_words
                in if length collected > 1 then
                     (let sorted_cell_words = sort_key w_x0 collected;
                          word_widths = map (\<lambda>w. w_x1 w - w_x0 w) sorted_cell_words;
                          avg = (if word_widths \<noteq> []
                                 then sum_list word_widths / real (length word_widths) else 10);
                          horizontal_gap_threshold = avg * 1.5
                      in (list_ex (\<lambda>gap. gap > horizontal_gap_threshold) (gaps sorted_cell_words),
                          \<lparr>current_cell_words = Some sorted_cell_words, avg_word_width = Some avg\<rparr>))
                   else (False, loc\<lparr>current_cell_words := Some collected\<rparr>))
             else (False, loc)))"

text \<open>
  Condition (c), the block under the second \<^verbatim>\<open>if len(current_cell_words) > 1\<close>, which
  stands outside the \<^verbatim>\<open>if cell_text and cell_bbox\<close> block and reads the locals.
\<close>

definition sum_of_gaps_check :: "locals \<Rightarrow> error + bool" where
  "sum_of_gaps_check loc =
     (case current_cell_words loc of
        None \<Rightarrow> Inl UnboundLocalError
      | Some ws \<Rightarrow>
          if length ws > 1 then
            (case avg_word_width loc of
               None \<Rightarrow> Inl UnboundLocalError
             | Some avg \<Rightarrow> Inr (sum_list (gaps ws) > avg))
          else Inr False)"

definition marked_text :: "string \<Rightarrow> string" where
  "marked_text original_cell_text = ''#$ '' @ original_cell_text"

definition mark_cell :: "word list \<Rightarrow> locals \<Rightarrow> cell \<Rightarrow> error + (locals \<times> cell)" where
  "mark_cell page_words loc c =
     (case horizontal_gap_check page_words loc c of
        (gap_flag, loc') \<Rightarrow>
          (case sum_of_gaps_check loc' of
             Inl e \<Rightarrow> Inl e
           | Inr sum_flag \<Rightarrow>
               Inr (loc',
                 (case snd c of
                    None \<Rightarrow> c
                  | Some s \<Rightarrow>
                      if (should_mark_based_on_content_and_newlines (snd c) \<or> gap_flag \<or> sum_flag)
                         \<and> s \<noteq> [] \<and> strip s \<noteq> []
                      then (fst c, Some (marked_text s)) else c))))"

text \<open>\<^verbatim>\<open>for i, cell_data in enumerate(row_cells)\<close>: the cells in order, the locals threaded.\<close>

fun mark_cells :: "word list \<Rightarrow> locals \<Rightarrow> cell list \<Rightarrow> error + (locals \<times> cell list)" where
  "mark_cells page_words loc [] = Inr (loc, [])"
| "mark_cells page_words loc (c # cs) =
     (case mark_cell page_words loc c of
        Inl e \<Rightarrow> Inl e
      | Inr (loc', c') \<Rightarrow>
          (case mark_cells page_words loc' cs of
             Inl e \<Rightarrow> Inl e
           | Inr (loc'', cs') \<Rightarrow> Inr (loc'', c' # cs')))"

text \<open>
  The row loop \<^verbatim>\<open>for row_idx, row_cells in enumerate(table_rows)\<close>: header test first,
  then marking of the same row. The state is
  \<open>(header_found_in_table, header_row_index, locals)\<close>; the result carries the rows as
  the in-place updates leave them.
\<close>

fun scan_rows :: "word list \<Rightarrow> nat \<Rightarrow> bool \<times> int \<times> locals \<Rightarrow> row list
    \<Rightarrow> error + ((bool \<times> int \<times> locals) \<times> row list)" where
  "scan_rows page_words row_idx st [] = Inr (st, [])"
| "scan_rows page_words row_idx (header_found_in_table, header_row_index, loc) (row_cells # rest) =
     (let found = (header_found_in_table \<or> row_is_header row_cells);
          hdr = (if row_is_header row_cells then int row_idx else header_row_index)
      in case (if found \<and> int row_idx > hdr \<and> none_count_in_row row_cells > 1
               then mark_cells page_words loc row_cells else Inr (loc, row_cells)) of
           Inl e \<Rightarrow> Inl e
         | Inr (loc', row_cells') \<Rightarrow>
             (case scan_rows page_words (Suc row_idx) (found, hdr, loc') rest of
                Inl e \<Rightarrow> Inl e
              | Inr (st', rest') \<Rightarrow> Inr (st', row_cells' # rest')))"

text \<open>
  What the marker may do to one cell: leave it, or put the marker before a text that
  is neither empty nor blank.
\<close>

definition marked_or_same :: "cell \<Rightarrow> cell \<Rightarrow> bool" where
  "marked_or_same c c' =
     (case snd c of
        None \<Rightarrow> c' = c
      | Some s \<Rightarrow> c' = c \<or> (s \<noteq> [] \<and> strip s \<noteq> [] \<and> c' = (fst c, Some (marked_text s))))"

definition scan_table :: "word list \<Rightarrow> locals \<Rightarrow> table
    \<Rightarrow> error + ((bool \<times> int \<times> locals) \<times> table)" where
  "scan_table page_words loc table_rows = scan_rows page_words 0 (False, - 1, loc) table_rows"

section \<open>Table Assembler: \<^verbatim>\<open>create_structured_table\<close>\<close>

text \<open>Python indexing \<^verbatim>\<open>xs[i]\<close>: a negative index counts from the end, out of range raises.\<close>

definition py_index :: "'a list \<Rightarrow> int \<Rightarrow> error + 'a" where
  "py_index xs i =
     (if 0 \<le> i \<and> i < int (length xs) then Inr (xs ! nat i)
      else if i < 0 \<and> - int (length xs) \<le> i then Inr (xs ! nat (int (length xs) + i))
      else Inl IndexError)"

definition column_boundaries_of :: "row \<Rightarrow> (real \<times> real) list" where
  "column_boundaries_of header_cells =
     List.map_filter (\<lambda>(cell_bbox, cell_text).
        case cell_bbox of None \<Rightarrow> None
        | Some (x0, y0, x1, y1) \<Rightarrow> Some (x0, x1)) header_cells"

definition has_marked_cells :: "row \<Rightarrow> bool" where
  "has_marked_cells original_row_cells =
     list_ex (\<lambda>(cell_bbox, cell_text).
        case cell_text of None \<Rightarrow> False | Some s \<Rightarrow> s \<noteq> [] \<and> prefix ''#$'' s) original_row_cells"

text \<open>
  The vertical span \<open>(row_min_y, row_max_y)\<close> of a row; \<open>None\<close> stands for the initial
  \<^verbatim>\<open>(inf, -inf)\<close>, which the loop leaves exactly when no cell has a bounding box.
\<close>

fun span_step :: "cell \<Rightarrow> (real \<times> real) option \<Rightarrow> (real \<times> real) option" where
  "span_step (None, cell_text) acc = acc"
| "span_step (Some (x0, y0, x1, y1), cell_text) None = Some (y0, y1)"
| "span_step (Some (x0, y0, x1, y1), cell_text) (Some (row_min_y, row_max_y)) =
     Some (min row_min_y y0, max row_max_y y1)"

definition row_span :: "row \<Rightarrow> (real \<times> real) option" where
  "row_span original_row_cells = fold span_step original_row_cells None"

definition word_in_span :: "real \<Rightarrow> real \<Rightarrow> word \<Rightarrow> bool" where
  "word_in_span row_min_y row_max_y w =
     (let tolerance_y = 2 in
        (w_y0 w \<ge> row_min_y - tolerance_y \<and> w_y0 w \<le> row_max_y + tolerance_y)
      \<or> (w_y1 w \<ge> row_min_y - tolerance_y \<and> w_y1 w \<le> row_max_y + tolerance_y)
      \<or> (w_y0 w \<le> row_min_y - tolerance_y \<and> w_y1 w \<ge> row_max_y + tolerance_y))"

definition words_in_row :: "word list \<Rightarrow> row \<Rightarrow> word list" where
  "words_in_row page_words original_row_cells =
     (case row_span original_row_cells of
        None \<Rightarrow> []
      | Some (row_min_y, row_max_y) \<Rightarrow> filter (word_in_span row_min_y row_max_y) page_words)"

text \<open>
  The closest-centre fallback loop on \<open>(min_dist, closest_col_idx)\<close>; \<open>None\<close> is the
  initial \<^verbatim>\<open>float('inf')\<close>.
\<close>

fun closest_step :: "real \<Rightarrow> nat \<times> (real \<times> real) \<Rightarrow> real option \<times> int \<Rightarrow> real option \<times> int" where
  "closest_step center (i, (col_x0, col_x1)) (min_dist, closest_col_idx) =
     (let col_center = (col_x0 + col_x1) / 2;
          dist = \<bar>center - col_center\<bar>
      in if (case min_dist of None \<Rightarrow> True | Some m \<Rightarrow> dist < m)
         then (Some dist, int i) else (min_dist, closest_col_idx))"

definition closest_column :: "real \<Rightarrow> (real \<times> real) list \<Rightarrow> int" where
  "closest_column center column_boundaries =
     snd (fold (closest_step center) (enumerate 0 column_boundaries) (None, - 1))"

text \<open>Marked rows: every word of a logical sub-row goes to a column of \<^verbatim>\<open>words_in_cols\<close>.\<close>

definition place_word :: "(real \<times> real) list \<Rightarrow> word \<Rightarrow> string list list \<Rightarrow> string list list" where
  "place_word column_boundaries w words_in_cols =
     (let col_idx = find_column_for_word (w_x0 w) (w_x1 w) column_boundaries
      in if col_idx \<noteq> - 1
         then words_in_cols[nat col_idx := words_in_cols ! nat col_idx @ [w_text w]]
         else (let closest_col_idx = closest_column ((w_x0 w + w_x1 w) / 2) column_boundaries
               in if closest_col_idx \<noteq> - 1
                  then words_in_cols[nat closest_col_idx := words_in_cols ! nat closest_col_idx @ [w_text w]]
                  else words_in_cols))"

definition any_nonblank :: "string list \<Rightarrow> bool" where
  "any_nonblank cells = list_ex (\<lambda>cell. strip cell \<noteq> []) cells"

definition sub_row_entry :: "(real \<times> real) list \<Rightarrow> real \<Rightarrow> word list \<Rightarrow> (real \<times> string list) list" where
  "sub_row_entry column_boundaries row_min_y sub_row_words =
     (let words_in_cols = fold (place_word column_boundaries) sub_row_words
                            (replicate (length column_boundaries) []);
          structured_sub_row = map (\<lambda>ws. if ws \<noteq> [] then join_space ws else []) words_in_cols
      in if any_nonblank structured_sub_row then
           (let words_for_sub_row_y_pos =
                  filter (\<lambda>w. sublist (w_text w) (join_space structured_sub_row)) sub_row_words;
                sub_row_y_pos = (if words_for_sub_row_y_pos \<noteq> []
                                 then min_list (map w_y0 words_for_sub_row_y_pos) else row_min_y)
            in [(sub_row_y_pos, structured_sub_row)])
         else [])"

definition marked_row_entries :: "(real \<times> real) list \<Rightarrow> word list \<Rightarrow> row \<Rightarrow> (real \<times> string list) list" where
  "marked_row_entries column_boundaries page_words original_row_cells =
     (case row_span original_row_cells of
        None \<Rightarrow> []
      | Some (row_min_y, row_max_y) \<Rightarrow>
          concat (map (sub_row_entry column_boundaries row_min_y)
            (separate_rows_by_vertical_gap (filter (word_in_span row_min_y row_max_y) page_words))))"

text \<open>Unmarked rows: the best-overlap loop on \<open>(best_col_idx, max_overlap_width)\<close>.\<close>

fun best_step :: "real \<Rightarrow> real \<Rightarrow> nat \<times> (real \<times> real) \<Rightarrow> int \<times> real \<Rightarrow> int \<times> real" where
  "best_step cell_x0 cell_x1 (col_b_idx, (col_x0, col_x1)) (best_col_idx, max_overlap_width) =
     (let overlap_x_start = max cell_x0 col_x0;
          overlap_x_end = min cell_x1 col_x1
      in if overlap_x_end > overlap_x_start \<and> overlap_x_end - overlap_x_start > max_overlap_width
         then (int col_b_idx, overlap_x_end - overlap_x_start)
         else (best_col_idx, max_overlap_width))"

definition best_overlap_column :: "real \<Rightarrow> real \<Rightarrow> (real \<times> real) list \<Rightarrow> int" where
  "best_overlap_column cell_x0 cell_x1 column_boundaries =
     fst (fold (best_step cell_x0 cell_x1) (enumerate 0 column_boundaries) (- 1, 0))"

definition append_text :: "nat \<Rightarrow> string \<Rightarrow> string list \<Rightarrow> string list" where
  "append_text col cell_text mapped_raw_row =
     (if mapped_raw_row ! col \<noteq> []
      then mapped_raw_row[col := mapped_raw_row ! col @ '' '' @ cell_text]
      else mapped_raw_row[col := cell_text])"

fun place_cell :: "(real \<times> real) list \<Rightarrow> cell \<Rightarrow> string list \<Rightarrow> string list" where
  "place_cell column_boundaries (cell_bbox, None) mapped_raw_row = mapped_raw_row"
| "place_cell column_boundaries (None, Some cell_text) mapped_raw_row =
     (if length column_boundaries > 0 then append_text 0 cell_text mapped_raw_row else mapped_raw_row)"
| "place_cell column_boundaries (Some (cell_x0, cell_y0, cell_x1, cell_y1), Some cell_text) mapped_raw_row =
     (let best_col_idx = best_overlap_column cell_x0 cell_x1 column_boundaries;
          assigned_col =
            (if best_col_idx \<noteq> - 1 then best_col_idx
             else (let closest_col_idx = closest_column ((cell_x0 + cell_x1) / 2) column_boundaries
                   in if closest_col_idx \<noteq> - 1 then closest_col_idx else - 1))
      in if assigned_col \<noteq> - 1 then append_text (nat assigned_col) cell_text mapped_raw_row
         else if length column_boundaries > 0 then append_text 0 cell_text mapped_raw_row
         else mapped_raw_row)"

definition unmarked_row_entries :: "(real \<times> real) list \<Rightarrow> word list \<Rightarrow> nat \<Rightarrow> row
    \<Rightarrow> (real \<times> string list) list" where
  "unmarked_row_entries column_boundaries page_words original_row_idx original_row_cells =
     (let words_in_raw_row = words_in_row page_words original_row_cells;
          raw_row_y_pos = (if words_in_raw_row \<noteq> [] then min_list (map w_y0 words_in_raw_row)
                           else real original_row_idx * 100);
          mapped_raw_row = fold (place_cell column_boundaries) original_row_cells
                             (replicate (length column_boundaries) [])
      in if any_nonblank mapped_raw_row then [(raw_row_y_pos, mapped_raw_row)] else [])"

definition row_entries :: "(real \<times> real) list \<Rightarrow> word list \<Rightarrow> nat \<times> row \<Rightarrow> (real \<times> string list) list" where
  "row_entries column_boundaries page_words ir =
     (case ir of (original_row_idx, original_row_cells) \<Rightarrow>
        if has_marked_cells original_row_cells
        then marked_row_entries column_boundaries page_words original_row_cells
        else unmarked_row_entries column_boundaries page_words original_row_idx original_row_cells)"

definition create_structured_table :: "table \<Rightarrow> int \<Rightarrow> word list \<Rightarrow> error + string list list" where
  "create_structured_table table_rows header_row_index page_words =
     (if header_row_index = - 1 \<or> header_row_index \<ge> int (length table_rows) then Inr []
      else case py_index table_rows header_row_index of
             Inl e \<Rightarrow> Inl e
           | Inr header_cells \<Rightarrow>
               (let column_boundaries = column_boundaries_of header_cells
                in if column_boundaries = [] then Inr []
                   else Inr (map snd (sort_key fst
                          (concat (map (row_entries column_boundaries page_words)
                             (enumerate 0 table_rows)))))))"

text \<open>
  One table of \<^verbatim>\<open>print_formatted_output\<close>: the scan with marking, then the assembly
  when a header was found. The result is the locals, the table as marked, and the
  structured table (\<open>[]\<close> when none is collected).
\<close>

definition process_table :: "word list \<Rightarrow> locals \<Rightarrow> table
    \<Rightarrow> error + (locals \<times> table \<times> string list list)" where
  "process_table page_words loc table_rows =
     (case scan_table page_words loc table_rows of
        Inl e \<Rightarrow> Inl e
      | Inr ((header_found_in_table, header_row_index, loc'), marked_rows) \<Rightarrow>
          if header_found_in_table then
            (case create_structured_table marked_rows header_row_index page_words of
               Inl e \<Rightarrow> Inl e
             | Inr structured_table \<Rightarrow> Inr (loc', marked_rows, structured_table))
          else Inr (loc', marked_rows, []))"

text \<open>
  What it means for a row to be worth an entry, and for no page word to lie in its
  vertical span, in the words of the specification.
\<close>

definition row_not_all_blank :: "row \<Rightarrow> bool" where
  "row_not_all_blank original_row_cells =
     list_ex (\<lambda>c. case snd c of None \<Rightarrow> False | Some s \<Rightarrow> strip s \<noteq> []) original_row_cells"

definition no_word_overlaps :: "word list \<Rightarrow> row \<Rightarrow> bool" where
  "no_word_overlaps page_words original_row_cells = (words_in_row page_words original_row_cells = [])"

section \<open>Row Segmenter: segmentation law and partition\<close>

lemma running_max_snoc:
  "cur \<noteq> [] \<Longrightarrow> running_max_bottom (cur @ [w]) = max (running_max_bottom cur) (w_y1 w)"
  unfolding running_max_bottom_def
  by (simp add: max.commute)

lemma row_unbroken_snoc:
  assumes "row_unbroken thr cur" and "\<not> (w_y0 w - running_max_bottom cur > thr)"
  shows "row_unbroken thr (cur @ [w])"
  unfolding row_unbroken_def
proof (intro conjI allI impI)
  show "cur @ [w] \<noteq> []" by simp
next
  fix j assume j: "0 < j \<and> j < length (cur @ [w])"
  show "\<not> thr < w_y0 ((cur @ [w]) ! j) - running_max_bottom (take j (cur @ [w]))"
  proof (cases "j < length cur")
    case True
    then show ?thesis using assms(1) j by (simp add: row_unbroken_def nth_append)
  next
    case False
    then have "j = length cur" using j by simp
    then show ?thesis using assms(2) by simp
  qed
qed

lemma rows_broken_Cons:
  assumes "rows_broken thr segs" and "segs \<noteq> []"
    and "w_y0 (hd (hd segs)) - running_max_bottom cur > thr"
  shows "rows_broken thr (cur # segs)"
  unfolding rows_broken_def
proof (intro allI impI)
  fix k assume k: "Suc k < length (cur # segs)"
  show "thr < w_y0 (hd ((cur # segs) ! Suc k)) - running_max_bottom ((cur # segs) ! k)"
  proof (cases k)
    case 0
    then show ?thesis using assms(2,3) by (simp add: hd_conv_nth)
  next
    case (Suc k')
    then show ?thesis using assms(1) k by (simp add: rows_broken_def)
  qed
qed

lemma row_unbroken_single: "row_unbroken thr [w]"
  by (auto simp: row_unbroken_def)

lemma gap_fold_segments:
  assumes "fold (gap_step thr) rest (rows, cur, mx) = (rows', cur', mx')"
    and "mx = running_max_bottom cur" and "row_unbroken thr cur"
  shows "cur' \<noteq> [] \<and> (\<exists>segs. segs \<noteq> [] \<and> concat segs = cur @ rest \<and> prefix cur (hd segs)
           \<and> (\<forall>seg \<in> set segs. row_unbroken thr seg) \<and> rows_broken thr segs
           \<and> rows' @ [sort_key w_x0 cur'] = rows @ map (sort_key w_x0) segs)"
  using assms
proof (induction rest arbitrary: rows cur mx)
  case Nil
  then have "cur' = cur" "rows' = rows" by simp_all
  moreover have "rows_broken thr [cur]" by (simp add: rows_broken_def)
  ultimately show ?case using Nil.prems(3)
    by (intro conjI exI[of _ "[cur]"]) (simp_all add: row_unbroken_def)
next
  case (Cons w rest)
  have cur_ne: "cur \<noteq> []" using Cons.prems(3) by (simp add: row_unbroken_def)
  show ?case
  proof (cases "w_y0 w - mx > thr")
    case True
    then have f: "fold (gap_step thr) rest (rows @ [sort_key w_x0 cur], [w], w_y1 w) = (rows', cur', mx')"
      using Cons.prems(1) by simp
    have m: "w_y1 w = running_max_bottom [w]" by (simp add: running_max_bottom_def)
    have u: "row_unbroken thr [w]" by (rule row_unbroken_single)
    from Cons.IH[OF f m u] obtain segs where c: "cur' \<noteq> []" and s: "segs \<noteq> []"
      "concat segs = [w] @ rest" "prefix [w] (hd segs)"
      "\<forall>seg \<in> set segs. row_unbroken thr seg" "rows_broken thr segs"
      "rows' @ [sort_key w_x0 cur'] = (rows @ [sort_key w_x0 cur]) @ map (sort_key w_x0) segs"
      by blast
    have hdw: "hd (hd segs) = w" using s(3) by (auto simp: prefix_def)
    have b: "rows_broken thr (cur # segs)"
      using rows_broken_Cons[OF s(5) s(1)] hdw True Cons.prems(2) by simp
    show ?thesis
      using c s b Cons.prems(3)
      by (intro conjI exI[of _ "cur # segs"]) simp_all
  next
    case False
    then have f: "fold (gap_step thr) rest (rows, cur @ [w], max mx (w_y1 w)) = (rows', cur', mx')"
      using Cons.prems(1) by simp
    have m: "max mx (w_y1 w) = running_max_bottom (cur @ [w])"
      using running_max_snoc[OF cur_ne] Cons.prems(2) by simp
    have u: "row_unbroken thr (cur @ [w])"
      using row_unbroken_snoc[OF Cons.prems(3)] False Cons.prems(2) by simp
    from Cons.IH[OF f m u] obtain segs where c: "cur' \<noteq> []" and s: "segs \<noteq> []"
      "concat segs = (cur @ [w]) @ rest" "prefix (cur @ [w]) (hd segs)"
      "\<forall>seg \<in> set segs. row_unbroken thr seg" "rows_broken thr segs"
      "rows' @ [sort_key w_x0 cur'] = rows @ map (sort_key w_x0) segs"
      by blast
    have p: "prefix cur (hd segs)" using s(3) by (auto simp: prefix_def)
    show ?thesis
      using c s p
      by (intro conjI exI[of _ segs]) simp_all
  qed
qed

lemma separate_rows_segments:
  assumes "cell_words \<noteq> []"
  shows "\<exists>segs. segs \<noteq> [] \<and> concat segs = sort_key (\<lambda>w. (w_y0 w, w_x0 w)) cell_words
           \<and> (\<forall>seg \<in> set segs. row_unbroken (gap_threshold_of (sort_key (\<lambda>w. (w_y0 w, w_x0 w)) cell_words)) seg)
           \<and> rows_broken (gap_threshold_of (sort_key (\<lambda>w. (w_y0 w, w_x0 w)) cell_words)) segs
           \<and> separate_rows_by_vertical_gap cell_words = map (sort_key w_x0) segs"
proof -
  let ?s = "sort_key (\<lambda>w. (w_y0 w, w_x0 w)) cell_words"
  have "?s \<noteq> []" using assms by (metis length_sort length_0_conv)
  then obtain w0 rest where s: "?s = w0 # rest" by (cases ?s) auto
  obtain rows' cur' mx' where f:
    "fold (gap_step (gap_threshold_of (w0 # rest))) rest ([], [w0], w_y1 w0) = (rows', cur', mx')"
    by (cases "fold (gap_step (gap_threshold_of (w0 # rest))) rest ([], [w0], w_y1 w0)") auto
  have m: "w_y1 w0 = running_max_bottom [w0]" by (simp add: running_max_bottom_def)
  have u: "row_unbroken (gap_threshold_of (w0 # rest)) [w0]" by (rule row_unbroken_single)
  from gap_fold_segments[OF f m u] obtain segs where c: "cur' \<noteq> []" and g: "segs \<noteq> []"
      "concat segs = [w0] @ rest"
      "\<forall>seg \<in> set segs. row_unbroken (gap_threshold_of (w0 # rest)) seg"
      "rows_broken (gap_threshold_of (w0 # rest)) segs"
      "rows' @ [sort_key w_x0 cur'] = [] @ map (sort_key w_x0) segs"
    by blast
  have "separate_rows_by_vertical_gap cell_words = map (sort_key w_x0) segs"
    using assms s f c g(5) by (simp add: separate_rows_by_vertical_gap_def)
  then show ?thesis using g s by (intro exI[of _ segs]) simp
qed


lemma sort_key_distinct_keys:
  assumes m: "mset ws = mset ys" and d: "distinct (map f ys)" and s: "sorted (map f ys)"
  shows "sort_key f ws = ys"
proof (rule properties_for_sort_key)
  show "mset ys = mset ws" using m by simp
  show "sorted (map f ys)" by (rule s)
  fix k assume k: "k \<in> set ys"
  have inj: "inj_on f (set ys)" using d by (simp add: distinct_map)
  have set_eq: "set ws = set ys" using m by (metis set_mset_mset)
  have c1: "count (mset ys) k = 1" using d k by (metis distinct_map distinct_count_atmost_1 set_mset_mset count_mset_0_iff)
  have fe: "\<And>zs. set zs = set ys \<Longrightarrow> filter_mset (\<lambda>x. f k = f x) (mset zs) = filter_mset (\<lambda>x. x = k) (mset zs)"
    by (rule filter_mset_cong) (use inj k in \<open>auto simp: inj_on_def\<close>)
  have "mset (filter (\<lambda>x. f k = f x) ys) = {#k#}"
    using fe[of ys] c1 by (simp add: filter_eq_replicate_mset)
  moreover have "mset (filter (\<lambda>x. f k = f x) ws) = {#k#}"
    using fe[of ws] set_eq c1 m by (simp add: filter_eq_replicate_mset)
  ultimately show "filter (\<lambda>x. f k = f x) ys = filter (\<lambda>x. f k = f x) ws"
    by (metis mset_single_iff)
qed

lemma gap_law_example:
  fixes h :: real
  assumes h: "h = 10 \<or> h \<le> 0"
    and ws: "mset ws = {#(t1, a1, 0, b1, 10), (t2, a2, 1, b2, 11), (t3, a3, 2, b3, 12), (t4, a4, 20, b4, 20 + h)#}"
  shows "gap_threshold_of (sort_key (\<lambda>w. (w_y0 w, w_x0 w)) ws) = 7
       \<and> separate_rows_by_vertical_gap ws =
           [sort_key w_x0 [(t1, a1, 0, b1, 10), (t2, a2, 1, b2, 11), (t3, a3, 2, b3, 12)],
            [(t4, a4, 20, b4, 20 + h)]]"
proof -
  let ?ys = "[(t1, a1, 0, b1, 10), (t2, a2, 1, b2, 11), (t3, a3, 2, b3, 12), (t4, a4, 20, b4, 20 + h)] :: word list"
  have s: "sort_key (\<lambda>w. (w_y0 w, w_x0 w)) ws = ?ys"
    by (rule sort_key_distinct_keys) (use ws in \<open>simp_all add: less_eq_prod_def\<close>)
  have ne: "ws \<noteq> []" using ws by auto
  have t: "gap_threshold_of ?ys = 7"
    using h by (auto simp: gap_threshold_of_def)
  show ?thesis
    using h ne by (auto simp: separate_rows_by_vertical_gap_def s t)
qed


text \<open>
  Claim C5, as the code has it. The threshold is 0.7 times the average of the positive
  heights among the first ten sorted words, so the fourth word's height counts too.
  Three words with tops 0, 1, 2 and height 10, and a fourth word with top 20 whose
  height is 10 as well (or not positive, so that it does not enter the average), given
  in any order: the gap threshold is 7 and the result is exactly two logical rows, the
  first holding the three words (sorted by \<open>x0\<close>), the second the fourth word. In
  general the result is the sorted sequence cut into consecutive segments, each sorted
  by \<open>x0\<close>, where inside a segment no word's top minus the running maximum bottom
  exceeds the threshold and the first word of every following segment does.
\<close>

theorem separate_rows_gap_law:
  fixes h :: real
  assumes "h = 10 \<or> h \<le> 0"
    and "mset ws = {#(t1, a1, 0, b1, 10), (t2, a2, 1, b2, 11), (t3, a3, 2, b3, 12), (t4, a4, 20, b4, 20 + h)#}"
  shows "gap_threshold_of (sort_key (\<lambda>w. (w_y0 w, w_x0 w)) ws) = 7
       \<and> separate_rows_by_vertical_gap ws =
           [sort_key w_x0 [(t1, a1, 0, b1, 10), (t2, a2, 1, b2, 11), (t3, a3, 2, b3, 12)],
            [(t4, a4, 20, b4, 20 + h)]]
       \<and> (\<exists>segs. concat segs = sort_key (\<lambda>w. (w_y0 w, w_x0 w)) cell_words
           \<and> (\<forall>seg \<in> set segs. row_unbroken (gap_threshold_of (sort_key (\<lambda>w. (w_y0 w, w_x0 w)) cell_words)) seg)
           \<and> rows_broken (gap_threshold_of (sort_key (\<lambda>w. (w_y0 w, w_x0 w)) cell_words)) segs
           \<and> separate_rows_by_vertical_gap cell_words = map (sort_key w_x0) segs)"
proof -
  have general: "\<exists>segs. concat segs = sort_key (\<lambda>w. (w_y0 w, w_x0 w)) cell_words
           \<and> (\<forall>seg \<in> set segs. row_unbroken (gap_threshold_of (sort_key (\<lambda>w. (w_y0 w, w_x0 w)) cell_words)) seg)
           \<and> rows_broken (gap_threshold_of (sort_key (\<lambda>w. (w_y0 w, w_x0 w)) cell_words)) segs
           \<and> separate_rows_by_vertical_gap cell_words = map (sort_key w_x0) segs"
  proof (cases "cell_words = []")
    case True
    then show ?thesis
      by (intro exI[of _ "[]"]) (simp add: separate_rows_by_vertical_gap_def rows_broken_def)
  next
    case False
    from separate_rows_segments[OF False] show ?thesis by blast
  qed
  show ?thesis using gap_law_example[OF assms] general by blast
qed

theorem separate_rows_gap_law_witness:
  "separate_rows_by_vertical_gap
     [(''d'', 0, 20, 5, 30), (''b'', 8, 1, 12, 11), (''a'', 0, 0, 5, 10), (''c'', 4, 2, 7, 12)]
   = [[(''a'', 0, 0, 5, 10), (''c'', 4, 2, 7, 12), (''b'', 8, 1, 12, 11)], [(''d'', 0, 20, 5, 30)]]
   \<and> gap_threshold_of (sort_key (\<lambda>w. (w_y0 w, w_x0 w))
       [(''d'', 0, 20, 5, 30), (''b'', 8, 1, 12, 11), (''a'', 0, 0, 5, 10), (''c'', 4, 2, 7, 12)]) = 7"
  using separate_rows_gap_law[of 10
      "[(''d'', 0, 20, 5, 30), (''b'', 8, 1, 12, 11), (''a'', 0, 0, 5, 10), (''c'', 4, 2, 7, 12)]"
      "''a''" 0 5 "''b''" 8 12 "''c''" 4 7 "''d''" 0 5 "[]"]
  by simp

text \<open>
  With a taller fourth word (top 20, height 30) the average height is 15 and the
  threshold 10.5; the gap of 8 to the running maximum bottom 12 does not exceed it and
  the four words stay in one logical row.
\<close>

theorem separate_rows_tall_fourth_word_counterexample:
  "gap_threshold_of (sort_key (\<lambda>w. (w_y0 w, w_x0 w))
       [(''a'', 0, 0, 5, 10), (''b'', 8, 1, 12, 11), (''c'', 4, 2, 7, 12), (''d'', 0, 20, 5, 50)]) = 10.5
   \<and> separate_rows_by_vertical_gap
       [(''a'', 0, 0, 5, 10), (''b'', 8, 1, 12, 11), (''c'', 4, 2, 7, 12), (''d'', 0, 20, 5, 50)]
     = [[(''a'', 0, 0, 5, 10), (''d'', 0, 20, 5, 50), (''c'', 4, 2, 7, 12), (''b'', 8, 1, 12, 11)]]"
  by code_simp

text \<open>
  Claim C10. The logical rows are a partition of the input: the rows together hold
  every input word exactly as often as the input does, every row is non-empty and
  sorted by \<open>x0\<close>, and the output is empty exactly when the input is.
\<close>

theorem separate_rows_partition:
  "mset (concat (separate_rows_by_vertical_gap cell_words)) = mset cell_words
   \<and> (\<forall>r \<in> set (separate_rows_by_vertical_gap cell_words). r \<noteq> [] \<and> sorted (map w_x0 r))
   \<and> (separate_rows_by_vertical_gap cell_words = [] \<longleftrightarrow> cell_words = [])"
proof (cases "cell_words = []")
  case True
  then show ?thesis by (simp add: separate_rows_by_vertical_gap_def)
next
  case False
  from separate_rows_segments[OF False] obtain segs where g: "segs \<noteq> []"
    "concat segs = sort_key (\<lambda>w. (w_y0 w, w_x0 w)) cell_words"
    "\<forall>seg \<in> set segs. row_unbroken (gap_threshold_of (sort_key (\<lambda>w. (w_y0 w, w_x0 w)) cell_words)) seg"
    "separate_rows_by_vertical_gap cell_words = map (sort_key w_x0) segs"
    by blast
  have "mset (concat (map (sort_key w_x0) segs)) = mset (concat segs)"
    by (induction segs) simp_all
  then have 1: "mset (concat (separate_rows_by_vertical_gap cell_words)) = mset cell_words"
    using g(2,4) by simp
  have 2: "\<forall>r \<in> set (separate_rows_by_vertical_gap cell_words). r \<noteq> [] \<and> sorted (map w_x0 r)"
  proof
    fix r assume "r \<in> set (separate_rows_by_vertical_gap cell_words)"
    then obtain seg where "seg \<in> set segs" "r = sort_key w_x0 seg" using g(4) by auto
    moreover then have "seg \<noteq> []" using g(3) by (auto simp: row_unbroken_def)
    ultimately show "r \<noteq> [] \<and> sorted (map w_x0 r)"
      by (metis length_sort length_0_conv sorted_sort_key)
  qed
  show ?thesis using 1 2 g(1,4) False by simp
qed

theorem separate_rows_partition_witness:
  "mset (concat (separate_rows_by_vertical_gap [(''q'', 3, 40, 9, 50), (''p'', 0, 0, 5, 10)]))
     = mset [(''q'', 3, 40, 9, 50), (''p'', 0, 0, 5, 10)]
   \<and> separate_rows_by_vertical_gap [(''q'', 3, 40, 9, 50), (''p'', 0, 0, 5, 10)] \<noteq> []"
  using separate_rows_partition[of "[(''q'', 3, 40, 9, 50), (''p'', 0, 0, 5, 10)]"]
  by simp

section \<open>Column Mapper: first sufficient overlap\<close>

lemma find_column_from_step:
  assumes "word_x0 < word_x1" and "col_x0 < col_x1"
  shows "find_column_from i word_x0 word_x1 ((col_x0, col_x1) # cols) =
           (if spec_column_matches word_x0 word_x1 (col_x0, col_x1) then int i
            else find_column_from (Suc i) word_x0 word_x1 cols)"
proof -
  have pos: "spec_column_matches word_x0 word_x1 (col_x0, col_x1)
      \<Longrightarrow> max word_x0 col_x0 < min word_x1 col_x1"
    using assms
    by (auto simp: spec_column_matches_def spec_overlap_width_def zero_less_divide_iff
        split: if_splits)
  show ?thesis
    using assms pos
    by (auto simp: Let_def spec_column_matches_def spec_overlap_width_def)
qed

lemma find_column_from_first_match:
  assumes "word_x0 < word_x1" and "\<forall>c \<in> set cols. fst c < snd c"
  shows "(find_column_from i word_x0 word_x1 cols = - 1
            \<and> (\<forall>c \<in> set cols. \<not> spec_column_matches word_x0 word_x1 c))
       \<or> (\<exists>j < length cols. find_column_from i word_x0 word_x1 cols = int (i + j)
            \<and> spec_column_matches word_x0 word_x1 (cols ! j)
            \<and> (\<forall>k < j. \<not> spec_column_matches word_x0 word_x1 (cols ! k)))"
  using assms(2)
proof (induction cols arbitrary: i)
  case Nil
  show ?case by simp
next
  case (Cons c cols)
  obtain c0 c1 where c: "c = (c0, c1)" by (cases c)
  have cp: "c0 < c1" using Cons.prems c by simp
  note st = find_column_from_step[OF assms(1) cp, of i cols]
  show ?case
  proof (cases "spec_column_matches word_x0 word_x1 (c0, c1)")
    case True
    then have "find_column_from i word_x0 word_x1 (c # cols) = int (i + 0)
        \<and> spec_column_matches word_x0 word_x1 ((c # cols) ! 0)
        \<and> (\<forall>k < 0. \<not> spec_column_matches word_x0 word_x1 ((c # cols) ! k))"
      using st c by simp
    then show ?thesis by (intro disjI2 exI[of _ 0]) simp
  next
    case False
    have eq: "find_column_from i word_x0 word_x1 (c # cols) = find_column_from (Suc i) word_x0 word_x1 cols"
      using st c False by simp
    have "\<forall>c \<in> set cols. fst c < snd c" using Cons.prems by simp
    from Cons.IH[OF this, of "Suc i"] show ?thesis
    proof
      assume "find_column_from (Suc i) word_x0 word_x1 cols = - 1
            \<and> (\<forall>c \<in> set cols. \<not> spec_column_matches word_x0 word_x1 c)"
      then show ?thesis using eq False c by simp
    next
      assume "\<exists>j < length cols. find_column_from (Suc i) word_x0 word_x1 cols = int (Suc i + j)
            \<and> spec_column_matches word_x0 word_x1 (cols ! j)
            \<and> (\<forall>k < j. \<not> spec_column_matches word_x0 word_x1 (cols ! k))"
      then obtain j where j: "j < length cols"
        "find_column_from (Suc i) word_x0 word_x1 cols = int (Suc i + j)"
        "spec_column_matches word_x0 word_x1 (cols ! j)"
        "\<forall>k < j. \<not> spec_column_matches word_x0 word_x1 (cols ! k)" by blast
      have "\<forall>k < Suc j. \<not> spec_column_matches word_x0 word_x1 ((c # cols) ! k)"
        using j(4) False c by (auto simp: less_Suc_eq_0_disj)
      then show ?thesis using j eq
        by (intro disjI2 exI[of _ "Suc j"]) simp
    qed
  qed
qed

lemma find_column_inside_second:
  assumes "word_x0 < word_x1" and "1 < length cols"
    and "fst (cols ! 1) \<le> word_x0" and "word_x1 \<le> snd (cols ! 1)"
    and "\<not> spans_overlap word_x0 word_x1 (cols ! 0)"
  shows "find_column_for_word word_x0 word_x1 cols = 1"
proof -
  obtain a b rest where cols: "cols = a # b # rest"
    using assms(2) by (cases cols; cases "tl cols") auto
  obtain a0 a1 b0 b1 where ab: "a = (a0, a1)" "b = (b0, b1)" by (cases a; cases b) auto
  show ?thesis
    using assms cols ab
    by (auto simp: find_column_for_word_def spans_overlap_def Let_def max_def min_def)
qed


text \<open>
  Claim C6, as the code has it: for a word of positive width, a span inside column 1
  that overlaps no other column gives 1; and when every column has positive width too,
  the result is the first column that meets one of the four criteria of the
  specification, and \<open>-1\<close> exactly when no column meets any.
\<close>

theorem find_column_first_match:
  assumes "word_x0 < word_x1"
  shows "(1 < length cols \<and> fst (cols ! 1) \<le> word_x0 \<and> word_x1 \<le> snd (cols ! 1)
            \<and> (\<forall>j < length cols. j \<noteq> 1 \<longrightarrow> \<not> spans_overlap word_x0 word_x1 (cols ! j))
          \<longrightarrow> find_column_for_word word_x0 word_x1 cols = 1)
       \<and> ((\<forall>c \<in> set cols. fst c < snd c) \<longrightarrow>
           (find_column_for_word word_x0 word_x1 cols = - 1
              \<longleftrightarrow> (\<forall>c \<in> set cols. \<not> spec_column_matches word_x0 word_x1 c))
         \<and> (find_column_for_word word_x0 word_x1 cols \<noteq> - 1 \<longrightarrow>
              0 \<le> find_column_for_word word_x0 word_x1 cols
            \<and> nat (find_column_for_word word_x0 word_x1 cols) < length cols
            \<and> spec_column_matches word_x0 word_x1 (cols ! nat (find_column_for_word word_x0 word_x1 cols))
            \<and> (\<forall>k < nat (find_column_for_word word_x0 word_x1 cols).
                  \<not> spec_column_matches word_x0 word_x1 (cols ! k))))"
proof (intro conjI impI)
  assume a: "1 < length cols \<and> fst (cols ! 1) \<le> word_x0 \<and> word_x1 \<le> snd (cols ! 1)
            \<and> (\<forall>j < length cols. j \<noteq> 1 \<longrightarrow> \<not> spans_overlap word_x0 word_x1 (cols ! j))"
  then have "1 < length cols" by blast
  then have "0 < length cols \<and> (0::nat) \<noteq> 1" by linarith
  with a have "\<not> spans_overlap word_x0 word_x1 (cols ! 0)" by blast
  with a show "find_column_for_word word_x0 word_x1 cols = 1"
    using find_column_inside_second[OF assms, of cols] by blast
next
  assume p: "\<forall>c \<in> set cols. fst c < snd c"
  note fm = find_column_from_first_match[OF assms p, of 0, folded find_column_for_word_def]
  show "find_column_for_word word_x0 word_x1 cols = - 1
              \<longleftrightarrow> (\<forall>c \<in> set cols. \<not> spec_column_matches word_x0 word_x1 c)"
    using fm by (auto dest: nth_mem)
  assume n: "find_column_for_word word_x0 word_x1 cols \<noteq> - 1"
  from fm n obtain j where j: "j < length cols" "find_column_for_word word_x0 word_x1 cols = int j"
    "spec_column_matches word_x0 word_x1 (cols ! j)"
    "\<forall>k < j. \<not> spec_column_matches word_x0 word_x1 (cols ! k)" by auto
  show "0 \<le> find_column_for_word word_x0 word_x1 cols" using j by simp
  show "nat (find_column_for_word word_x0 word_x1 cols) < length cols" using j by simp
  show "spec_column_matches word_x0 word_x1 (cols ! nat (find_column_for_word word_x0 word_x1 cols))"
    using j by simp
  show "\<forall>k < nat (find_column_for_word word_x0 word_x1 cols).
                  \<not> spec_column_matches word_x0 word_x1 (cols ! k)" using j by simp
qed

theorem find_column_first_match_witness:
  "(60::real) < 70 \<and> find_column_for_word 60 70 [(0, 50), (50, 100)] = 1
   \<and> spec_column_matches 60 70 ([(0, 50), (50, 100)] ! 1)
   \<and> \<not> spec_column_matches 60 70 (0, 50)"
  using find_column_first_match[of 60 70 "[(0, 50), (50, 100)]"]
  by (simp add: spans_overlap_def less_Suc_eq_0_disj spec_column_matches_def spec_overlap_width_def)

theorem find_column_zero_width_counterexample:
  "fst ([(0, 50), (50, 100)] ! 1) \<le> (60::real) \<and> (60::real) \<le> snd ([(0, 50), (50, 100)] ! 1)
   \<and> \<not> spans_overlap 60 60 (0, 50)
   \<and> spec_column_matches 60 60 (50, 100)
   \<and> find_column_for_word 60 60 [(0, 50), (50, 100)] = - 1"
  by (simp add: find_column_for_word_def spans_overlap_def spec_column_matches_def)

section \<open>Header Detector: the last qualifying row wins\<close>

lemma of_char_to_lower:
  "(of_char (to_lower c) :: nat) =
     (if 65 \<le> (of_char c :: nat) \<and> (of_char c :: nat) \<le> 90 then of_char c + 32 else of_char c)"
  by (simp add: to_lower_def)

lemma is_space_to_lower [simp]: "is_space (to_lower c) = is_space c"
  by (simp add: is_space_def of_char_to_lower)

lemma colon_code: "(c = CHR '':'') = ((of_char c :: nat) = 58)"
proof -
  have "(of_char CHR '':'' :: nat) = 58" by simp
  then show ?thesis by (metis of_char_eq_iff)
qed

lemma to_lower_colon [simp]: "(to_lower c = CHR '':'') = (c = CHR '':'')"
  by (simp add: colon_code of_char_to_lower)

lemma dropWhile_space_lower:
  "(dropWhile is_space (map to_lower cs) = []) = (dropWhile is_space cs = [])"
  by (simp add: dropWhile_eq_Nil_conv)

lemma re_search_metadata_lower: "re_search_metadata (lower s) = re_search_metadata s"
  unfolding lower_def
  by (induction s) (simp_all add: dropWhile_space_lower)

lemma strip_nonempty: "(strip s \<noteq> []) = (\<exists>c \<in> set s. \<not> is_space c)"
proof -
  have "(strip s = []) = (dropWhile is_space s = [])"
  proof
    assume "strip s = []"
    then have a: "\<forall>c \<in> set (dropWhile is_space s). is_space c"
      by (simp add: strip_def dropWhile_eq_Nil_conv)
    show "dropWhile is_space s = []"
    proof (cases "dropWhile is_space s")
      case Nil then show ?thesis .
    next
      case (Cons x xs)
      then have "\<not> is_space x" by (metis hd_dropWhile list.sel(1) list.distinct(1))
      moreover have "x \<in> set (dropWhile is_space s)" using Cons by simp
      ultimately show ?thesis using a by blast
    qed
  next
    assume d: "dropWhile is_space s = []"
    show "strip s = []" unfolding strip_def d by simp
  qed
  moreover have "(dropWhile is_space s = []) = (\<forall>c \<in> set s. is_space c)"
    by (rule dropWhile_eq_Nil_conv)
  ultimately show ?thesis by blast
qed

lemma re_search_metadata_nonblank: "re_search_metadata s \<Longrightarrow> s \<noteq> [] \<and> strip s \<noteq> []"
proof (induction s)
  case Nil then show ?case by simp
next
  case (Cons c cs)
  show ?case
  proof (cases "c = CHR '':'' \<and> dropWhile is_space cs \<noteq> []")
    case True
    then obtain x where "x \<in> set cs" "\<not> is_space x" by (auto simp: dropWhile_eq_Nil_conv)
    then show ?thesis by (auto simp: strip_nonempty)
  next
    case False
    then have "re_search_metadata cs" using Cons.prems by auto
    then show ?thesis using Cons.IH by (auto simp: strip_nonempty)
  qed
qed

text \<open>
  The search for \<^verbatim>\<open>:\s*\S\<close> succeeds exactly on the texts that contain a colon, then a
  run of whitespace (possibly empty), then a character that is not whitespace.
\<close>

lemma re_search_metadata_iff:
  "re_search_metadata s \<longleftrightarrow>
     (\<exists>pre sp c rest. s = pre @ [CHR '':''] @ sp @ [c] @ rest
        \<and> (\<forall>x \<in> set sp. is_space x) \<and> \<not> is_space c)"
proof (induction s)
  case Nil
  show ?case by simp
next
  case (Cons c0 cs)
  show ?case
  proof
    assume "re_search_metadata (c0 # cs)"
    then consider "c0 = CHR '':''" "dropWhile is_space cs \<noteq> []" | "re_search_metadata cs"
      by auto
    then show "\<exists>pre sp c rest. c0 # cs = pre @ [CHR '':''] @ sp @ [c] @ rest
        \<and> (\<forall>x \<in> set sp. is_space x) \<and> \<not> is_space c"
    proof cases
      case 1
      then obtain x rest where d: "dropWhile is_space cs = x # rest"
        by (cases "dropWhile is_space cs") auto
      then have nx: "\<not> is_space x" by (metis hd_dropWhile list.sel(1) list.distinct(1))
      have "cs = takeWhile is_space cs @ x # rest" using d by (metis takeWhile_dropWhile_id)
      then have "c0 # cs = [] @ [CHR '':''] @ takeWhile is_space cs @ [x] @ rest"
        using 1(1) by simp
      moreover have "\<forall>y \<in> set (takeWhile is_space cs). is_space y"
        by (auto dest: set_takeWhileD)
      ultimately show ?thesis using nx by blast
    next
      case 2
      then obtain pre sp c rest where "cs = pre @ [CHR '':''] @ sp @ [c] @ rest"
        "\<forall>x \<in> set sp. is_space x" "\<not> is_space c" using Cons.IH by blast
      then have "c0 # cs = (c0 # pre) @ [CHR '':''] @ sp @ [c] @ rest
        \<and> (\<forall>x \<in> set sp. is_space x) \<and> \<not> is_space c" by simp
      then show ?thesis by blast
    qed
  next
    assume "\<exists>pre sp c rest. c0 # cs = pre @ [CHR '':''] @ sp @ [c] @ rest
        \<and> (\<forall>x \<in> set sp. is_space x) \<and> \<not> is_space c"
    then obtain pre sp c rest where e: "c0 # cs = pre @ [CHR '':''] @ sp @ [c] @ rest"
      "\<forall>x \<in> set sp. is_space x" "\<not> is_space c" by blast
    show "re_search_metadata (c0 # cs)"
    proof (cases pre)
      case Nil
      then have "c0 = CHR '':''" "cs = sp @ c # rest" using e(1) by simp_all
      moreover have "dropWhile is_space (sp @ c # rest) = c # rest"
        using e(2,3) by (simp add: dropWhile_append2)
      ultimately show ?thesis by simp
    next
      case (Cons p pre')
      then have "cs = pre' @ [CHR '':''] @ sp @ [c] @ rest" using e(1) by simp
      then have "re_search_metadata cs" using Cons.IH e(2,3) by blast
      then show ?thesis by simp
    qed
  qed
qed

lemma keyword_has_letter: "k \<in> set COLUMN_KEYWORDS \<Longrightarrow> \<exists>c \<in> set k. \<not> is_space c"
  unfolding COLUMN_KEYWORDS_def
  by (auto simp: is_space_def)

lemma keyword_hits_blank:
  assumes "t = [] \<or> strip t = []"
  shows "keyword_hits t = 0"
proof -
  have "\<not> sublist k t" if k: "k \<in> set COLUMN_KEYWORDS" for k
  proof
    assume s: "sublist k t"
    from keyword_has_letter[OF k] obtain c where c: "c \<in> set k" "\<not> is_space c" by blast
    have "c \<in> set t" using s c(1) by (auto simp: sublist_def)
    with assms c(2) show False using strip_nonempty [of t] by auto
  qed
  then show ?thesis by (simp add: keyword_hits_def)
qed

lemma fold_keyword_scan:
  "fold keyword_scan txts (n, m) =
     (n + sum_list (map keyword_hits txts), m \<or> list_ex re_search_metadata txts)"
proof (induction txts arbitrary: n m)
  case Nil
  show ?case by simp
next
  case (Cons t txts)
  show ?case
  proof (cases "t \<noteq> [] \<and> strip t \<noteq> []")
    case True
    then show ?thesis using Cons.IH by simp
  next
    case False
    then have "keyword_hits t = 0" "\<not> re_search_metadata t"
      using keyword_hits_blank[of t] re_search_metadata_nonblank[of t] by auto
    then show ?thesis using False Cons.IH by auto
  qed
qed

lemma row_text_content_Cons:
  "row_text_content ((b, t) # cs) =
     (case t of None \<Rightarrow> [] | Some s \<Rightarrow> if s \<noteq> [] then [lower s] else []) @ row_text_content cs"
  by (cases t) (simp_all add: row_text_content_def)

lemma keyword_hits_row_text:
  "sum_list (map keyword_hits (row_text_content row_cells)) = spec_keyword_count row_cells"
proof (induction row_cells)
  case Nil
  show ?case by (simp add: row_text_content_def spec_keyword_count_def)
next
  case (Cons c cs)
  obtain b t where c: "c = (b, t)" by (cases c)
  have step: "spec_keyword_count (c # cs) =
      (case t of None \<Rightarrow> 0 | Some s \<Rightarrow> keyword_hits (lower s)) + spec_keyword_count cs"
    using c by (cases t) (simp_all add: spec_keyword_count_def)
  have e: "keyword_hits (lower []) = 0" using keyword_hits_blank[of "[]"] by (simp add: lower_def)
  have "sum_list (map keyword_hits (row_text_content ((b, t) # cs))) =
      (case t of None \<Rightarrow> 0 | Some s \<Rightarrow> keyword_hits (lower s)) + spec_keyword_count cs"
    unfolding row_text_content_Cons
    using Cons.IH e by (cases t) auto
  then show ?case using step c by simp
qed

lemma metadata_row_text:
  "list_ex re_search_metadata (row_text_content row_cells) = spec_row_has_metadata row_cells"
proof (induction row_cells)
  case Nil
  show ?case by (simp add: row_text_content_def spec_row_has_metadata_def)
next
  case (Cons c cs)
  obtain b t where c: "c = (b, t)" by (cases c)
  have step: "spec_row_has_metadata (c # cs) =
      ((case t of None \<Rightarrow> False | Some s \<Rightarrow> re_search_metadata s) \<or> spec_row_has_metadata cs)"
    using c by (simp add: spec_row_has_metadata_def)
  have "list_ex re_search_metadata (row_text_content ((b, t) # cs)) =
      ((case t of None \<Rightarrow> False | Some s \<Rightarrow> re_search_metadata s) \<or> spec_row_has_metadata cs)"
    unfolding row_text_content_Cons
    using Cons.IH by (cases t) (auto simp: re_search_metadata_lower)
  then show ?case using step c by simp
qed

lemma row_is_header_spec: "row_is_header row_cells = spec_row_qualifies row_cells"
  by (simp add: row_is_header_def spec_row_qualifies_def fold_keyword_scan
      keyword_hits_row_text metadata_row_text)

section \<open>Corruption Marker: what a scan changes\<close>

lemma mark_cell_rel:
  assumes "mark_cell page_words loc c = Inr (loc', c')"
  shows "marked_or_same c c'"
  using assms
  by (auto simp: mark_cell_def marked_or_same_def split: prod.splits sum.splits option.splits if_splits)

lemma mark_cells_rel:
  assumes "mark_cells page_words loc cs = Inr (loc', cs')"
  shows "list_all2 marked_or_same cs cs'"
  using assms
proof (induction cs arbitrary: loc loc' cs')
  case Nil
  then show ?case by simp
next
  case (Cons c cs)
  from Cons.prems obtain loc1 c1 loc2 cs2 where
    a: "mark_cell page_words loc c = Inr (loc1, c1)"
    and b: "mark_cells page_words loc1 cs = Inr (loc2, cs2)"
    and c: "cs' = c1 # cs2"
    by (auto split: sum.splits prod.splits)
  show ?case using mark_cell_rel[OF a] Cons.IH[OF b] c by simp
qed

lemma scan_rows_rows:
  assumes "scan_rows page_words idx (hf, hdr, loc) rows = Inr ((hf', hdr', loc'), rows')"
    and "hdr < int idx"
  shows "length rows' = length rows
    \<and> hf' = (hf \<or> (\<exists>q < length rows. row_is_header (rows ! q)))
    \<and> ((\<not> (\<exists>q < length rows. row_is_header (rows ! q)) \<and> hdr' = hdr)
       \<or> (\<exists>q < length rows. row_is_header (rows ! q) \<and> hdr' = int (idx + q)
            \<and> (\<forall>j. q < j \<and> j < length rows \<longrightarrow> \<not> row_is_header (rows ! j))))
    \<and> (\<forall>r < length rows. rows' ! r = rows ! r
          \<or> ((hf \<or> (\<exists>q < r. row_is_header (rows ! q))) \<and> \<not> row_is_header (rows ! r)
              \<and> none_count_in_row (rows ! r) > 1
              \<and> list_all2 marked_or_same (rows ! r) (rows' ! r)))"
  using assms
proof (induction rows arbitrary: idx hf hdr loc rows')
  case Nil
  then show ?case by simp
next
  case (Cons row rest)
  define found where "found = (hf \<or> row_is_header row)"
  define hdr1 where "hdr1 = (if row_is_header row then int idx else hdr)"
  define first where "first = (if found \<and> int idx > hdr1 \<and> none_count_in_row row > 1
               then mark_cells page_words loc row else Inr (loc, row))"
  from Cons.prems(1) obtain loc1 row1 rest1 where
    f: "first = Inr (loc1, row1)"
    and s: "scan_rows page_words (Suc idx) (found, hdr1, loc1) rest = Inr ((hf', hdr', loc'), rest1)"
    and r: "rows' = row1 # rest1"
    unfolding found_def hdr1_def first_def
    by (auto simp: Let_def split: sum.splits prod.splits)
  have h1: "hdr1 < int (Suc idx)" using Cons.prems(2) by (simp add: hdr1_def)
  note IH = Cons.IH[OF s h1]
  have gt: "(int idx > hdr1) = (\<not> row_is_header row)"
    using Cons.prems(2) by (simp add: hdr1_def)
  have row1: "row1 = row \<or> (hf \<and> \<not> row_is_header row \<and> none_count_in_row row > 1
      \<and> list_all2 marked_or_same row row1)"
  proof (cases "found \<and> int idx > hdr1 \<and> none_count_in_row row > 1")
    case True
    then have "mark_cells page_words loc row = Inr (loc1, row1)" using f by (simp add: first_def)
    from mark_cells_rel[OF this] True gt show ?thesis by (auto simp: found_def)
  next
    case False
    then have "first = Inr (loc, row)" unfolding first_def by (rule if_not_P)
    then show ?thesis using f by simp
  qed
  have len: "length rows' = length (row # rest)" using IH r by simp
  have hf_eq: "hf' = (hf \<or> (\<exists>q < length (row # rest). row_is_header ((row # rest) ! q)))"
  proof -
    have "hf' = (found \<or> (\<exists>q < length rest. row_is_header (rest ! q)))" using IH by blast
    moreover have "(\<exists>q < length (row # rest). row_is_header ((row # rest) ! q))
        = (row_is_header row \<or> (\<exists>q < length rest. row_is_header (rest ! q)))"
      by (auto simp: less_Suc_eq_0_disj)
    ultimately show ?thesis by (auto simp: found_def)
  qed
  have hdr_eq: "(\<not> (\<exists>q < length (row # rest). row_is_header ((row # rest) ! q)) \<and> hdr' = hdr)
       \<or> (\<exists>q < length (row # rest). row_is_header ((row # rest) ! q) \<and> hdr' = int (idx + q)
            \<and> (\<forall>j. q < j \<and> j < length (row # rest) \<longrightarrow> \<not> row_is_header ((row # rest) ! j)))"
  proof -
    from IH have "(\<not> (\<exists>q < length rest. row_is_header (rest ! q)) \<and> hdr' = hdr1)
       \<or> (\<exists>q < length rest. row_is_header (rest ! q) \<and> hdr' = int (Suc idx + q)
            \<and> (\<forall>j. q < j \<and> j < length rest \<longrightarrow> \<not> row_is_header (rest ! j)))" by blast
    then show ?thesis
    proof
      assume a: "\<not> (\<exists>q < length rest. row_is_header (rest ! q)) \<and> hdr' = hdr1"
      show ?thesis
      proof (cases "row_is_header row")
        case True
        have "0 < length (row # rest) \<and> row_is_header ((row # rest) ! 0) \<and> hdr' = int (idx + 0)
            \<and> (\<forall>j. 0 < j \<and> j < length (row # rest) \<longrightarrow> \<not> row_is_header ((row # rest) ! j))"
          using a True by (auto simp: hdr1_def gr0_conv_Suc)
        then show ?thesis by blast
      next
        case False
        then show ?thesis using a by (auto simp: hdr1_def less_Suc_eq_0_disj)
      qed
    next
      assume "\<exists>q < length rest. row_is_header (rest ! q) \<and> hdr' = int (Suc idx + q)
            \<and> (\<forall>j. q < j \<and> j < length rest \<longrightarrow> \<not> row_is_header (rest ! j))"
      then obtain q where q: "q < length rest" "row_is_header (rest ! q)" "hdr' = int (Suc idx + q)"
        "\<forall>j. q < j \<and> j < length rest \<longrightarrow> \<not> row_is_header (rest ! j)" by blast
      have "\<not> row_is_header ((row # rest) ! j)" if "Suc q < j \<and> j < length (row # rest)" for j
      proof -
        from that obtain j' where j': "j = Suc j'" by (cases j) auto
        with that q(4) show ?thesis by simp
      qed
      then have "Suc q < length (row # rest) \<and> row_is_header ((row # rest) ! Suc q) \<and> hdr' = int (idx + Suc q)
            \<and> (\<forall>j. Suc q < j \<and> j < length (row # rest) \<longrightarrow> \<not> row_is_header ((row # rest) ! j))"
        using q(1,2,3) by simp
      then show ?thesis by blast
    qed
  qed
  have rows_eq: "\<forall>r < length (row # rest). rows' ! r = (row # rest) ! r
          \<or> ((hf \<or> (\<exists>q < r. row_is_header ((row # rest) ! q))) \<and> \<not> row_is_header ((row # rest) ! r)
              \<and> none_count_in_row ((row # rest) ! r) > 1
              \<and> list_all2 marked_or_same ((row # rest) ! r) (rows' ! r))"
  proof (intro allI impI)
    fix k assume k: "k < length (row # rest)"
    show "rows' ! k = (row # rest) ! k
          \<or> ((hf \<or> (\<exists>q < k. row_is_header ((row # rest) ! q))) \<and> \<not> row_is_header ((row # rest) ! k)
              \<and> none_count_in_row ((row # rest) ! k) > 1
              \<and> list_all2 marked_or_same ((row # rest) ! k) (rows' ! k))"
    proof (cases k)
      case 0
      then show ?thesis using row1 r by auto
    next
      case (Suc k')
      then have k': "k' < length rest" using k by simp
      from IH k' have d: "rest1 ! k' = rest ! k'
          \<or> ((found \<or> (\<exists>q < k'. row_is_header (rest ! q))) \<and> \<not> row_is_header (rest ! k')
              \<and> none_count_in_row (rest ! k') > 1
              \<and> list_all2 marked_or_same (rest ! k') (rest1 ! k'))" by blast
      have e: "(found \<or> (\<exists>q < k'. row_is_header (rest ! q)))
          = (hf \<or> (\<exists>q < Suc k'. row_is_header ((row # rest) ! q)))"
        by (auto simp: found_def less_Suc_eq_0_disj)
      show ?thesis using d e r Suc by auto
    qed
  qed
  show ?case using len hf_eq hdr_eq rows_eq by blast
qed

lemma spec_header_index_cases:
  "(\<not> (\<exists>q < length rows. spec_row_qualifies (rows ! q)) \<and> spec_header_index rows = - 1)
   \<or> (\<exists>q < length rows. spec_row_qualifies (rows ! q) \<and> spec_header_index rows = int q
        \<and> (\<forall>j. q < j \<and> j < length rows \<longrightarrow> \<not> spec_row_qualifies (rows ! j)))"
proof -
  let ?qs = "filter (\<lambda>i. spec_row_qualifies (rows ! i)) [0..<length rows]"
  show ?thesis
  proof (cases ?qs)
    case Nil
    then have "\<forall>i \<in> set [0..<length rows]. \<not> spec_row_qualifies (rows ! i)"
      by (simp add: filter_empty_conv)
    then show ?thesis using Nil by (simp add: spec_header_index_def)
  next
    case (Cons q qs)
    have ne: "?qs \<noteq> []" using Cons by simp
    have idx: "spec_header_index rows = int (last ?qs)"
      using Cons by (simp add: spec_header_index_def)
    have mem: "last ?qs \<in> set ?qs" using ne by (rule last_in_set)
    have srt: "sorted ?qs" by (rule sorted_wrt_filter) simp
    have top: "\<not> spec_row_qualifies (rows ! j)" if "last ?qs < j \<and> j < length rows" for j
    proof
      assume "spec_row_qualifies (rows ! j)"
      then have "j \<in> set ?qs" using that by simp
      then obtain k where k: "k < length ?qs" "?qs ! k = j" unfolding in_set_conv_nth by blast
      have "?qs ! k \<le> ?qs ! (length ?qs - 1)"
        using srt k(1) by (intro sorted_nth_mono) simp_all
      then have "j \<le> last ?qs" using k(2) ne by (simp add: last_conv_nth)
      then show False using that by simp
    qed
    have "last ?qs < length rows \<and> spec_row_qualifies (rows ! last ?qs)" using mem by simp
    then show ?thesis using idx top by blast
  qed
qed

lemma scan_table_header:
  assumes "scan_table page_words loc table_rows = Inr ((hf, hdr, loc'), rows')"
  shows "hdr = spec_header_index table_rows \<and> hf = (hdr \<noteq> - 1)"
proof -
  have s: "scan_rows page_words 0 (False, - 1, loc) table_rows = Inr ((hf, hdr, loc'), rows')"
    using assms by (simp add: scan_table_def)
  have lt: "(- 1 :: int) < int 0" by simp
  note R = scan_rows_rows[OF s lt, unfolded row_is_header_spec]
  from R have hfq: "hf = (\<exists>q < length table_rows. spec_row_qualifies (table_rows ! q))" by simp
  from R have c: "(\<not> (\<exists>q < length table_rows. spec_row_qualifies (table_rows ! q)) \<and> hdr = - 1)
       \<or> (\<exists>q < length table_rows. spec_row_qualifies (table_rows ! q) \<and> hdr = int (0 + q)
            \<and> (\<forall>j. q < j \<and> j < length table_rows \<longrightarrow> \<not> spec_row_qualifies (table_rows ! j)))"
    by blast
  from c show ?thesis
  proof
    assume a: "\<not> (\<exists>q < length table_rows. spec_row_qualifies (table_rows ! q)) \<and> hdr = - 1"
    then have "spec_header_index table_rows = - 1"
      using spec_header_index_cases[of table_rows] by blast
    then show ?thesis using a hfq by simp
  next
    assume "\<exists>q < length table_rows. spec_row_qualifies (table_rows ! q) \<and> hdr = int (0 + q)
            \<and> (\<forall>j. q < j \<and> j < length table_rows \<longrightarrow> \<not> spec_row_qualifies (table_rows ! j))"
    then obtain q where q: "q < length table_rows" "spec_row_qualifies (table_rows ! q)" "hdr = int q"
      "\<forall>j. q < j \<and> j < length table_rows \<longrightarrow> \<not> spec_row_qualifies (table_rows ! j)" by auto
    from spec_header_index_cases[of table_rows] q(1,2)
    obtain p where p: "p < length table_rows" "spec_row_qualifies (table_rows ! p)"
      "spec_header_index table_rows = int p"
      "\<forall>j. p < j \<and> j < length table_rows \<longrightarrow> \<not> spec_row_qualifies (table_rows ! j)" by blast
    have "p = q"
    proof (rule ccontr)
      assume "p \<noteq> q"
      then have "p < q \<or> q < p" by linarith
      then show False using p q by blast
    qed
    then show ?thesis using p q hfq by auto
  qed
qed

lemma scan_table_cell:
  assumes "scan_table page_words loc table_rows = Inr ((hf, hdr, loc'), rows')"
    and "r < length table_rows" and "i < length (table_rows ! r)"
  shows "length rows' = length table_rows \<and> length (rows' ! r) = length (table_rows ! r)
     \<and> (rows' ! r ! i = table_rows ! r ! i
         \<or> ((\<exists>q < r. spec_row_qualifies (table_rows ! q)) \<and> \<not> spec_row_qualifies (table_rows ! r)
             \<and> none_count_in_row (table_rows ! r) > 1
             \<and> (\<exists>s. snd (table_rows ! r ! i) = Some s \<and> s \<noteq> [] \<and> strip s \<noteq> []
                   \<and> rows' ! r ! i = (fst (table_rows ! r ! i), Some (marked_text s)))))"
proof -
  have s: "scan_rows page_words 0 (False, - 1, loc) table_rows = Inr ((hf, hdr, loc'), rows')"
    using assms(1) by (simp add: scan_table_def)
  have lt: "(- 1 :: int) < int 0" by simp
  note R = scan_rows_rows[OF s lt, unfolded row_is_header_spec]
  from R have len: "length rows' = length table_rows" by blast
  from R assms(2) have d: "rows' ! r = table_rows ! r
          \<or> ((\<exists>q < r. spec_row_qualifies (table_rows ! q)) \<and> \<not> spec_row_qualifies (table_rows ! r)
              \<and> none_count_in_row (table_rows ! r) > 1
              \<and> list_all2 marked_or_same (table_rows ! r) (rows' ! r))" by simp
  from d show ?thesis
  proof
    assume "rows' ! r = table_rows ! r"
    then show ?thesis using len by simp
  next
    assume a: "(\<exists>q < r. spec_row_qualifies (table_rows ! q)) \<and> \<not> spec_row_qualifies (table_rows ! r)
              \<and> none_count_in_row (table_rows ! r) > 1
              \<and> list_all2 marked_or_same (table_rows ! r) (rows' ! r)"
    then have "list_all2 marked_or_same (table_rows ! r) (rows' ! r)" by blast
    then have l2: "length (rows' ! r) = length (table_rows ! r)"
      by (simp add: list_all2_lengthD)
    have m: "marked_or_same (table_rows ! r ! i) (rows' ! r ! i)"
      using a assms(3) by (simp add: list_all2_nthD)
    have "rows' ! r ! i = table_rows ! r ! i
        \<or> (\<exists>s. snd (table_rows ! r ! i) = Some s \<and> s \<noteq> [] \<and> strip s \<noteq> []
                   \<and> rows' ! r ! i = (fst (table_rows ! r ! i), Some (marked_text s)))"
      using m by (auto simp: marked_or_same_def split: option.splits)
    then show ?thesis using a len l2 by blast
  qed
qed

lemma spec_header_index_prefix:
  assumes "q < r" and "r < length table_rows" and "spec_row_qualifies (table_rows ! q)"
    and "\<not> spec_row_qualifies (table_rows ! r)"
  shows "spec_header_index (take (Suc r) table_rows) \<noteq> - 1
       \<and> spec_header_index (take (Suc r) table_rows) < int r"
proof -
  let ?t = "take (Suc r) table_rows"
  have len: "length ?t = Suc r" using assms(2) by simp
  have nth: "\<And>k. k < Suc r \<Longrightarrow> ?t ! k = table_rows ! k" by simp
  have ex: "\<exists>k < length ?t. spec_row_qualifies (?t ! k)"
    using assms(1,3) len nth by (metis less_Suc_eq)
  with spec_header_index_cases[of ?t]
  obtain p where p: "p < length ?t" "spec_row_qualifies (?t ! p)" "spec_header_index ?t = int p"
    by blast
  have "p \<noteq> r" using p(1,2) assms(4) len nth by (metis lessI)
  then have "p < r" using p(1) len by simp
  then show ?thesis using p(3) by simp
qed

text \<open>
  Claim C1. When the scan of a table completes, the reported header row index is the
  index of the last row whose keyword count is at least 3 and which has no cell matching
  the metadata pattern: every qualifying row has an index at most the reported one, the
  reported row qualifies itself, and the index is \<open>-1\<close> exactly when no row qualifies.
\<close>

theorem header_last_wins:
  assumes "scan_table page_words loc table_rows = Inr ((hf, hdr, loc'), rows')"
  shows "hdr = spec_header_index table_rows
       \<and> (hdr = - 1 \<longleftrightarrow> \<not> (\<exists>q < length table_rows. spec_row_qualifies (table_rows ! q)))
       \<and> (\<forall>q < length table_rows. spec_row_qualifies (table_rows ! q) \<longrightarrow>
             int q \<le> hdr \<and> spec_row_qualifies (table_rows ! nat hdr))
       \<and> hf = (hdr \<noteq> - 1)"
proof -
  have h: "hdr = spec_header_index table_rows" "hf = (hdr \<noteq> - 1)"
    using scan_table_header[OF assms] by simp_all
  from spec_header_index_cases[of table_rows] show ?thesis
  proof
    assume "\<not> (\<exists>q < length table_rows. spec_row_qualifies (table_rows ! q))
        \<and> spec_header_index table_rows = - 1"
    then show ?thesis using h by simp
  next
    assume "\<exists>q < length table_rows. spec_row_qualifies (table_rows ! q)
        \<and> spec_header_index table_rows = int q
        \<and> (\<forall>j. q < j \<and> j < length table_rows \<longrightarrow> \<not> spec_row_qualifies (table_rows ! j))"
    then obtain p where p: "p < length table_rows" "spec_row_qualifies (table_rows ! p)"
      "spec_header_index table_rows = int p"
      "\<forall>j. p < j \<and> j < length table_rows \<longrightarrow> \<not> spec_row_qualifies (table_rows ! j)" by blast
    have le: "int q \<le> hdr" if "q < length table_rows" "spec_row_qualifies (table_rows ! q)" for q
    proof (rule ccontr)
      assume "\<not> int q \<le> hdr"
      then have "p < q" using h(1) p(3) by simp
      then show False using p(4) that by blast
    qed
    have "hdr \<noteq> - 1" using h(1) p(3) by simp
    moreover have "spec_row_qualifies (table_rows ! nat hdr)" using h(1) p(2,3) by simp
    ultimately show ?thesis using h p(1,2) le by blast
  qed
qed

theorem header_last_wins_witness:
  "scan_table [] unbound_locals
     [[(Some (0, 0, 50, 10), Some ''Item''), (Some (50, 0, 100, 10), Some ''Qty''),
       (Some (100, 0, 150, 10), Some ''Rate'')],
      [(Some (0, 10, 50, 20), Some ''bolt''), (Some (50, 10, 100, 20), Some ''2''),
       (Some (100, 10, 150, 20), Some ''5'')],
      [(Some (0, 20, 50, 30), Some ''Description''), (Some (50, 20, 100, 30), Some ''Amount''),
       (Some (100, 20, 150, 30), Some ''Tax'')]]
   = Inr ((True, 2, unbound_locals),
     [[(Some (0, 0, 50, 10), Some ''Item''), (Some (50, 0, 100, 10), Some ''Qty''),
       (Some (100, 0, 150, 10), Some ''Rate'')],
      [(Some (0, 10, 50, 20), Some ''bolt''), (Some (50, 10, 100, 20), Some ''2''),
       (Some (100, 10, 150, 20), Some ''5'')],
      [(Some (0, 20, 50, 30), Some ''Description''), (Some (50, 20, 100, 30), Some ''Amount''),
       (Some (100, 20, 150, 30), Some ''Tax'')]])
   \<and> spec_header_index
     [[(Some (0, 0, 50, 10), Some ''Item''), (Some (50, 0, 100, 10), Some ''Qty''),
       (Some (100, 0, 150, 10), Some ''Rate'')],
      [(Some (0, 10, 50, 20), Some ''bolt''), (Some (50, 10, 100, 20), Some ''2''),
       (Some (100, 10, 150, 20), Some ''5'')],
      [(Some (0, 20, 50, 30), Some ''Description''), (Some (50, 20, 100, 30), Some ''Amount''),
       (Some (100, 20, 150, 30), Some ''Tax'')]] = 2"
proof -
  have e: "scan_table [] unbound_locals
     [[(Some (0, 0, 50, 10), Some ''Item''), (Some (50, 0, 100, 10), Some ''Qty''),
       (Some (100, 0, 150, 10), Some ''Rate'')],
      [(Some (0, 10, 50, 20), Some ''bolt''), (Some (50, 10, 100, 20), Some ''2''),
       (Some (100, 10, 150, 20), Some ''5'')],
      [(Some (0, 20, 50, 30), Some ''Description''), (Some (50, 20, 100, 30), Some ''Amount''),
       (Some (100, 20, 150, 30), Some ''Tax'')]]
   = Inr ((True, 2, unbound_locals),
     [[(Some (0, 0, 50, 10), Some ''Item''), (Some (50, 0, 100, 10), Some ''Qty''),
       (Some (100, 0, 150, 10), Some ''Rate'')],
      [(Some (0, 10, 50, 20), Some ''bolt''), (Some (50, 10, 100, 20), Some ''2''),
       (Some (100, 10, 150, 20), Some ''5'')],
      [(Some (0, 20, 50, 30), Some ''Description''), (Some (50, 20, 100, 30), Some ''Amount''),
       (Some (100, 20, 150, 30), Some ''Tax'')]])"
    by code_simp
  from header_last_wins[OF e] e show ?thesis by simp
qed

text \<open>
  Claim C2. A row with a cell text that matches the metadata pattern (a colon, then
  optional whitespace, then a non-whitespace character) is never the header row: it
  fails the header test whatever its keyword count, it is not the index the scan
  reports, and it is not the header index after any prefix of the rows.
\<close>

theorem metadata_row_never_header:
  assumes "scan_table page_words loc table_rows = Inr ((hf, hdr, loc'), rows')"
    and "r < length table_rows"
    and "spec_row_has_metadata (table_rows ! r)"
  shows "hdr \<noteq> int r \<and> \<not> row_is_header (table_rows ! r)
       \<and> (\<forall>k. spec_header_index (take k table_rows) \<noteq> int r)"
proof -
  have nq: "\<not> spec_row_qualifies (table_rows ! r)"
    using assms(3) by (simp add: spec_row_qualifies_def)
  have pre: "spec_header_index (take k table_rows) \<noteq> int r" for k
  proof
    assume a: "spec_header_index (take k table_rows) = int r"
    from spec_header_index_cases[of "take k table_rows"] a
    obtain q where q: "q < length (take k table_rows)" "spec_row_qualifies (take k table_rows ! q)"
      "spec_header_index (take k table_rows) = int q" by auto
    then have "q = r" using a by simp
    moreover have "take k table_rows ! q = table_rows ! q" using q(1) by simp
    ultimately show False using q(2) nq by simp
  qed
  have "hdr = spec_header_index (take (length table_rows) table_rows)"
    using scan_table_header[OF assms(1)] by simp
  then have "hdr \<noteq> int r" using pre[of "length table_rows"] by simp
  then show ?thesis using nq pre by (simp add: row_is_header_spec)
qed

theorem metadata_row_never_header_witness:
  "scan_table [] unbound_locals
     [[(Some (0, 0, 150, 10), Some ''Invoice: item qty rate''), (Some (150, 0, 200, 10), Some ''A1'')]]
   = Inr ((False, - 1, unbound_locals),
     [[(Some (0, 0, 150, 10), Some ''Invoice: item qty rate''), (Some (150, 0, 200, 10), Some ''A1'')]])
   \<and> spec_row_has_metadata
       [(Some (0, 0, 150, 10), Some ''Invoice: item qty rate''), (Some (150, 0, 200, 10), Some ''A1'')]
   \<and> spec_keyword_count
       [(Some (0, 0, 150, 10), Some ''Invoice: item qty rate''), (Some (150, 0, 200, 10), Some ''A1'')] = 3
   \<and> \<not> row_is_header
       [(Some (0, 0, 150, 10), Some ''Invoice: item qty rate''), (Some (150, 0, 200, 10), Some ''A1'')]"
proof -
  have e: "scan_table [] unbound_locals
     [[(Some (0, 0, 150, 10), Some ''Invoice: item qty rate''), (Some (150, 0, 200, 10), Some ''A1'')]]
   = Inr ((False, - 1, unbound_locals),
     [[(Some (0, 0, 150, 10), Some ''Invoice: item qty rate''), (Some (150, 0, 200, 10), Some ''A1'')]])"
    by code_simp
  have m: "spec_row_has_metadata
       ([[(Some (0, 0, 150, 10), Some ''Invoice: item qty rate''), (Some (150, 0, 200, 10), Some ''A1'')]] ! 0)"
    by code_simp
  have c: "spec_keyword_count
       [(Some (0, 0, 150, 10), Some ''Invoice: item qty rate''), (Some (150, 0, 200, 10), Some ''A1'')] = 3"
    by code_simp
  have l: "0 < length [[(Some (0::real, 0::real, 150::real, 10::real), Some ''Invoice: item qty rate''),
       (Some (150, 0, 200, 10), Some ''A1'')]]" by simp
  from metadata_row_never_header[OF e l m] e m c show ?thesis by simp
qed

text \<open>
  Claim C7. When the scan completes, a cell differs from the input only by the
  marker put before its text, and only in a row scanned when a header had been
  found at a strictly smaller index (the header index after that row's own header test),
  in a row with more than one cell without bounding box. Hence the header row, the rows
  above the first header and the rows with at most one such cell keep all their cells.
\<close>

theorem marking_only_below_header:
  assumes "scan_table page_words loc table_rows = Inr ((hf, hdr, loc'), rows')"
    and "r < length table_rows" and "i < length (table_rows ! r)"
    and "rows' ! r ! i \<noteq> table_rows ! r ! i"
  shows "(\<exists>s. snd (table_rows ! r ! i) = Some s
            \<and> rows' ! r ! i = (fst (table_rows ! r ! i), Some (''#$ '' @ s)))
       \<and> spec_header_index (take (Suc r) table_rows) \<noteq> - 1
       \<and> spec_header_index (take (Suc r) table_rows) < int r
       \<and> none_count_in_row (table_rows ! r) > 1
       \<and> \<not> spec_row_qualifies (table_rows ! r)"
proof -
  from scan_table_cell[OF assms(1,2,3)] assms(4)
  have a: "(\<exists>q < r. spec_row_qualifies (table_rows ! q))" "\<not> spec_row_qualifies (table_rows ! r)"
    "none_count_in_row (table_rows ! r) > 1"
    "\<exists>s. snd (table_rows ! r ! i) = Some s \<and> s \<noteq> [] \<and> strip s \<noteq> []
                   \<and> rows' ! r ! i = (fst (table_rows ! r ! i), Some (marked_text s))"
    by blast+
  from a(1) obtain q where q: "q < r" "spec_row_qualifies (table_rows ! q)" by blast
  note p = spec_header_index_prefix[OF q(1) assms(2) q(2) a(2)]
  show ?thesis using a(2,3,4) p by (auto simp: marked_text_def)
qed

theorem marking_only_below_header_witness:
  "scan_table [(''ab'', 0, 10, 10, 20), (''cd'', 80, 10, 90, 20)] unbound_locals
     [[(Some (0, 0, 50, 10), Some ''Item''), (Some (50, 0, 100, 10), Some ''Qty''),
       (Some (100, 0, 150, 10), Some ''Rate'')],
      [(Some (0, 10, 100, 20), Some ''ab cd''), (None, None), (None, None)]]
   = Inr ((True, 0, \<lparr>current_cell_words = Some [(''ab'', 0, 10, 10, 20), (''cd'', 80, 10, 90, 20)],
                     avg_word_width = Some 10\<rparr>),
     [[(Some (0, 0, 50, 10), Some ''Item''), (Some (50, 0, 100, 10), Some ''Qty''),
       (Some (100, 0, 150, 10), Some ''Rate'')],
      [(Some (0, 10, 100, 20), Some ''#$ ab cd''), (None, None), (None, None)]])
   \<and> spec_header_index (take (Suc 1)
     [[(Some (0, 0, 50, 10), Some ''Item''), (Some (50, 0, 100, 10), Some ''Qty''),
       (Some (100, 0, 150, 10), Some ''Rate'')],
      [(Some (0, 10, 100, 20), Some ''ab cd''), (None, None), (None, None)]]) < 1
   \<and> none_count_in_row [(Some (0, 10, 100, 20), Some ''ab cd''), (None, None), (None, None)] > 1"
proof -
  have e: "scan_table [(''ab'', 0, 10, 10, 20), (''cd'', 80, 10, 90, 20)] unbound_locals
     [[(Some (0, 0, 50, 10), Some ''Item''), (Some (50, 0, 100, 10), Some ''Qty''),
       (Some (100, 0, 150, 10), Some ''Rate'')],
      [(Some (0, 10, 100, 20), Some ''ab cd''), (None, None), (None, None)]]
   = Inr ((True, 0, \<lparr>current_cell_words = Some [(''ab'', 0, 10, 10, 20), (''cd'', 80, 10, 90, 20)],
                     avg_word_width = Some 10\<rparr>),
     [[(Some (0, 0, 50, 10), Some ''Item''), (Some (50, 0, 100, 10), Some ''Qty''),
       (Some (100, 0, 150, 10), Some ''Rate'')],
      [(Some (0, 10, 100, 20), Some ''#$ ab cd''), (None, None), (None, None)]])"
    by code_simp
  from marking_only_below_header[OF e, of 1 0] e show ?thesis by simp
qed

text \<open>
  Claim C8, as the code has it. The marker has no guard against a text that already
  starts with the marker; in one scan every cell is either kept or gets the marker once,
  so a cell whose text did not start with \<open>#$ \<close> does not start with \<open>#$ #$ \<close>
  afterwards.
\<close>

theorem marker_prefixes_once:
  assumes "scan_table page_words loc table_rows = Inr ((hf, hdr, loc'), rows')"
    and "r < length table_rows" and "i < length (table_rows ! r)"
    and "\<forall>s. snd (table_rows ! r ! i) = Some s \<longrightarrow> \<not> prefix ''#$ '' s"
  shows "(rows' ! r ! i = table_rows ! r ! i
          \<or> (\<exists>s. snd (table_rows ! r ! i) = Some s
                \<and> rows' ! r ! i = (fst (table_rows ! r ! i), Some (''#$ '' @ s))))
       \<and> (\<forall>s'. snd (rows' ! r ! i) = Some s' \<longrightarrow> \<not> prefix ''#$ #$ '' s')"
proof -
  from scan_table_cell[OF assms(1,2,3)]
  have d: "rows' ! r ! i = table_rows ! r ! i
          \<or> (\<exists>s. snd (table_rows ! r ! i) = Some s
                \<and> rows' ! r ! i = (fst (table_rows ! r ! i), Some (''#$ '' @ s)))"
    by (auto simp: marked_text_def)
  have n: "\<not> prefix ''#$ #$ '' s'" if s': "snd (rows' ! r ! i) = Some s'" for s'
  proof
    assume p: "prefix ''#$ #$ '' s'"
    from d show False
    proof
      assume "rows' ! r ! i = table_rows ! r ! i"
      then have "snd (table_rows ! r ! i) = Some s'" using s' by simp
      moreover have "prefix ''#$ '' s'" using p by (auto simp: prefix_def)
      ultimately show False using assms(4) by blast
    next
      assume "\<exists>s. snd (table_rows ! r ! i) = Some s
                \<and> rows' ! r ! i = (fst (table_rows ! r ! i), Some (''#$ '' @ s))"
      then obtain s where s: "snd (table_rows ! r ! i) = Some s" "s' = ''#$ '' @ s"
        using s' by auto
      have "prefix ''#$ '' s" using p s(2) by (auto simp: prefix_def)
      then show False using assms(4) s(1) by blast
    qed
  qed
  show ?thesis using d n by blast
qed

theorem marker_prefixes_once_witness:
  "scan_table [(''ab'', 0, 10, 10, 20), (''cd'', 80, 10, 90, 20)] unbound_locals
     [[(Some (0, 0, 50, 10), Some ''Item''), (Some (50, 0, 100, 10), Some ''Qty''),
       (Some (100, 0, 150, 10), Some ''Rate'')],
      [(Some (0, 10, 100, 20), Some ''ab cd''), (None, None), (None, None)]]
   = Inr ((True, 0, \<lparr>current_cell_words = Some [(''ab'', 0, 10, 10, 20), (''cd'', 80, 10, 90, 20)],
                     avg_word_width = Some 10\<rparr>),
     [[(Some (0, 0, 50, 10), Some ''Item''), (Some (50, 0, 100, 10), Some ''Qty''),
       (Some (100, 0, 150, 10), Some ''Rate'')],
      [(Some (0, 10, 100, 20), Some ''#$ ab cd''), (None, None), (None, None)]])
   \<and> \<not> prefix ''#$ '' ''ab cd'' \<and> \<not> prefix ''#$ #$ '' ''#$ ab cd''"
proof -
  have e: "scan_table [(''ab'', 0, 10, 10, 20), (''cd'', 80, 10, 90, 20)] unbound_locals
     [[(Some (0, 0, 50, 10), Some ''Item''), (Some (50, 0, 100, 10), Some ''Qty''),
       (Some (100, 0, 150, 10), Some ''Rate'')],
      [(Some (0, 10, 100, 20), Some ''ab cd''), (None, None), (None, None)]]
   = Inr ((True, 0, \<lparr>current_cell_words = Some [(''ab'', 0, 10, 10, 20), (''cd'', 80, 10, 90, 20)],
                     avg_word_width = Some 10\<rparr>),
     [[(Some (0, 0, 50, 10), Some ''Item''), (Some (50, 0, 100, 10), Some ''Qty''),
       (Some (100, 0, 150, 10), Some ''Rate'')],
      [(Some (0, 10, 100, 20), Some ''#$ ab cd''), (None, None), (None, None)]])"
    by code_simp
  from marker_prefixes_once[OF e, of 1 0] e show ?thesis by simp
qed

theorem marker_twice_double_prefix_counterexample:
  "scan_table [] unbound_locals
     [[(Some (0, 0, 50, 10), Some ''Item''), (Some (50, 0, 100, 10), Some ''Qty''),
       (Some (100, 0, 150, 10), Some ''Rate'')],
      [(Some (0, 10, 100, 20),
        Some [CHR ''a'', CHR ''1'', CHR 0x0A, CHR ''$'', CHR 0x0A, CHR ''b'', CHR 0x0A, CHR ''c'',
              CHR 0x0A, CHR ''d'']),
       (None, None), (None, None)]]
   = Inr ((True, 0, \<lparr>current_cell_words = Some [], avg_word_width = None\<rparr>),
     [[(Some (0, 0, 50, 10), Some ''Item''), (Some (50, 0, 100, 10), Some ''Qty''),
       (Some (100, 0, 150, 10), Some ''Rate'')],
      [(Some (0, 10, 100, 20),
        Some (''#$ '' @ [CHR ''a'', CHR ''1'', CHR 0x0A, CHR ''$'', CHR 0x0A, CHR ''b'', CHR 0x0A, CHR ''c'',
              CHR 0x0A, CHR ''d''])),
       (None, None), (None, None)]])
   \<and> scan_table [] \<lparr>current_cell_words = Some [], avg_word_width = None\<rparr>
     [[(Some (0, 0, 50, 10), Some ''Item''), (Some (50, 0, 100, 10), Some ''Qty''),
       (Some (100, 0, 150, 10), Some ''Rate'')],
      [(Some (0, 10, 100, 20),
        Some (''#$ '' @ [CHR ''a'', CHR ''1'', CHR 0x0A, CHR ''$'', CHR 0x0A, CHR ''b'', CHR 0x0A, CHR ''c'',
              CHR 0x0A, CHR ''d''])),
       (None, None), (None, None)]]
   = Inr ((True, 0, \<lparr>current_cell_words = Some [], avg_word_width = None\<rparr>),
     [[(Some (0, 0, 50, 10), Some ''Item''), (Some (50, 0, 100, 10), Some ''Qty''),
       (Some (100, 0, 150, 10), Some ''Rate'')],
      [(Some (0, 10, 100, 20),
        Some (''#$ #$ '' @ [CHR ''a'', CHR ''1'', CHR 0x0A, CHR ''$'', CHR 0x0A, CHR ''b'', CHR 0x0A, CHR ''c'',
              CHR 0x0A, CHR ''d''])),
       (None, None), (None, None)]])"
  by code_simp

text \<open>
  Claim C3, at a failing input. The first cell of the row collects two page words and
  is marked. For the next cell, whether it has an empty text or no bounding box, the
  word collection is skipped (no page word lies in it), yet the sum-of-gaps check runs
  on the first cell's words and average and answers \<open>True\<close>; a cell without bounding
  box but with text is marked on that ground.
\<close>

theorem sum_of_gaps_reads_stale_words:
  "mark_cell [(''ab'', 0, 10, 10, 20), (''cd'', 80, 10, 90, 20)] unbound_locals
     (Some (0, 10, 100, 20), Some ''ab cd'')
   = Inr (\<lparr>current_cell_words = Some [(''ab'', 0, 10, 10, 20), (''cd'', 80, 10, 90, 20)],
           avg_word_width = Some 10\<rparr>,
          (Some (0, 10, 100, 20), Some ''#$ ab cd''))
   \<and> horizontal_gap_check [(''ab'', 0, 10, 10, 20), (''cd'', 80, 10, 90, 20)]
        \<lparr>current_cell_words = Some [(''ab'', 0, 10, 10, 20), (''cd'', 80, 10, 90, 20)],
         avg_word_width = Some 10\<rparr>
        (Some (100, 10, 200, 20), Some '''')
      = (False, \<lparr>current_cell_words = Some [(''ab'', 0, 10, 10, 20), (''cd'', 80, 10, 90, 20)],
                 avg_word_width = Some 10\<rparr>)
   \<and> filter (word_in_cell (100, 10, 200, 20)) [(''ab'', 0, 10, 10, 20), (''cd'', 80, 10, 90, 20)] = []
   \<and> sum_of_gaps_check \<lparr>current_cell_words = Some [(''ab'', 0, 10, 10, 20), (''cd'', 80, 10, 90, 20)],
         avg_word_width = Some 10\<rparr> = Inr True
   \<and> scan_table [(''ab'', 0, 10, 10, 20), (''cd'', 80, 10, 90, 20)] unbound_locals
     [[(Some (0, 0, 50, 10), Some ''Item''), (Some (50, 0, 100, 10), Some ''Qty''),
       (Some (100, 0, 150, 10), Some ''Rate'')],
      [(Some (0, 10, 100, 20), Some ''ab cd''), (None, Some ''x''), (None, None)]]
   = Inr ((True, 0, \<lparr>current_cell_words = Some [(''ab'', 0, 10, 10, 20), (''cd'', 80, 10, 90, 20)],
                     avg_word_width = Some 10\<rparr>),
     [[(Some (0, 0, 50, 10), Some ''Item''), (Some (50, 0, 100, 10), Some ''Qty''),
       (Some (100, 0, 150, 10), Some ''Rate'')],
      [(Some (0, 10, 100, 20), Some ''#$ ab cd''), (None, Some ''#$ x''), (None, None)]])"
  by code_simp

text \<open>
  Claim C4, at a failing input. The first cell that the marker examines has neither
  text nor bounding box, so the sum-of-gaps check reads \<^verbatim>\<open>current_cell_words\<close> before
  any assignment: the scan, and with it the processing of the table, ends in
  \<^verbatim>\<open>UnboundLocalError\<close>.
\<close>

theorem marking_raises_unbound_local:
  "scan_table [] unbound_locals
     [[(Some (0, 0, 50, 10), Some ''Item''), (Some (50, 0, 100, 10), Some ''Qty''),
       (Some (100, 0, 150, 10), Some ''Rate'')],
      [(None, None), (None, None), (Some (100, 10, 150, 20), Some ''x'')]]
   = Inl UnboundLocalError
   \<and> process_table [] unbound_locals
     [[(Some (0, 0, 50, 10), Some ''Item''), (Some (50, 0, 100, 10), Some ''Qty''),
       (Some (100, 0, 150, 10), Some ''Rate'')],
      [(None, None), (None, None), (Some (100, 10, 150, 20), Some ''x'')]]
   = Inl UnboundLocalError"
  by code_simp

section \<open>Table Assembler: which rows keep an entry\<close>

text \<open>
  The assembly itself raises nothing for a header index the scan can report
  (\<open>-1\<close> or a row index).
\<close>

lemma create_structured_table_returns:
  assumes "- 1 \<le> h"
  shows "\<exists>tbl. create_structured_table table_rows h page_words = Inr tbl"
proof (cases "h = - 1 \<or> h \<ge> int (length table_rows)")
  case True
  then show ?thesis by (auto simp: create_structured_table_def)
next
  case False
  then have "py_index table_rows h = Inr (table_rows ! nat h)"
    using assms by (simp add: py_index_def)
  then show ?thesis using False
    by (simp add: create_structured_table_def Let_def)
qed

lemma best_fold_range:
  "fst (fold (best_step cell_x0 cell_x1) (enumerate i cols) (b, m)) = b
   \<or> (int i \<le> fst (fold (best_step cell_x0 cell_x1) (enumerate i cols) (b, m))
      \<and> fst (fold (best_step cell_x0 cell_x1) (enumerate i cols) (b, m)) < int (i + length cols))"
proof (induction cols arbitrary: i b m)
  case Nil
  show ?case by simp
next
  case (Cons c cols)
  obtain c0 c1 where c: "c = (c0, c1)" by (cases c)
  obtain b1 m1 where s: "best_step cell_x0 cell_x1 (i, (c0, c1)) (b, m) = (b1, m1)"
    by (cases "best_step cell_x0 cell_x1 (i, (c0, c1)) (b, m)")
  have b1: "b1 = b \<or> b1 = int i" using s by (auto simp: Let_def split: if_splits)
  have e: "fold (best_step cell_x0 cell_x1) (enumerate i (c # cols)) (b, m)
      = fold (best_step cell_x0 cell_x1) (enumerate (Suc i) cols) (b1, m1)"
    unfolding c by (simp del: best_step.simps add: s)
  from Cons.IH[of "Suc i" b1 m1] b1 show ?case
    unfolding e by auto
qed

lemma best_overlap_column_range:
  "best_overlap_column cell_x0 cell_x1 cols = - 1
   \<or> (0 \<le> best_overlap_column cell_x0 cell_x1 cols
      \<and> nat (best_overlap_column cell_x0 cell_x1 cols) < length cols)"
  using best_fold_range[of cell_x0 cell_x1 0 cols "- 1" 0]
  by (auto simp: best_overlap_column_def)

lemma closest_fold_range:
  "snd (fold (closest_step center) (enumerate i cols) (d, k)) = k
   \<or> (int i \<le> snd (fold (closest_step center) (enumerate i cols) (d, k))
      \<and> snd (fold (closest_step center) (enumerate i cols) (d, k)) < int (i + length cols))"
proof (induction cols arbitrary: i d k)
  case Nil
  show ?case by simp
next
  case (Cons c cols)
  obtain c0 c1 where c: "c = (c0, c1)" by (cases c)
  obtain d1 k1 where s: "closest_step center (i, (c0, c1)) (d, k) = (d1, k1)"
    by (cases "closest_step center (i, (c0, c1)) (d, k)")
  have k1: "k1 = k \<or> k1 = int i" using s by (auto simp: Let_def split: if_splits)
  have e: "fold (closest_step center) (enumerate i (c # cols)) (d, k)
      = fold (closest_step center) (enumerate (Suc i) cols) (d1, k1)"
    unfolding c by (simp del: closest_step.simps add: s)
  from Cons.IH[of "Suc i" d1 k1] k1 show ?case
    unfolding e by auto
qed

lemma closest_column_range:
  "closest_column center cols = - 1
   \<or> (0 \<le> closest_column center cols \<and> nat (closest_column center cols) < length cols)"
  using closest_fold_range[of center 0 cols None "- 1"]
  by (auto simp: closest_column_def)

lemma any_nonblank_iff:
  "any_nonblank cells = (\<exists>j < length cells. strip (cells ! j) \<noteq> [])"
  unfolding any_nonblank_def list_ex_iff
  by (metis in_set_conv_nth)

lemma append_text_keeps:
  assumes "col < length mapped"
  shows "length (append_text col t mapped) = length mapped
       \<and> (any_nonblank mapped \<longrightarrow> any_nonblank (append_text col t mapped))
       \<and> (strip t \<noteq> [] \<longrightarrow> any_nonblank (append_text col t mapped))"
proof (intro conjI impI)
  show len: "length (append_text col t mapped) = length mapped" by (simp add: append_text_def)
  have at: "append_text col t mapped ! col =
      (if mapped ! col \<noteq> [] then mapped ! col @ '' '' @ t else t)"
    using assms by (simp add: append_text_def)
  have other: "\<And>j. j \<noteq> col \<Longrightarrow> append_text col t mapped ! j = mapped ! j"
    by (simp add: append_text_def)
  {
    assume "any_nonblank mapped"
    then obtain j where j: "j < length mapped" "strip (mapped ! j) \<noteq> []"
      by (auto simp: any_nonblank_iff)
    have "strip (append_text col t mapped ! j) \<noteq> []"
    proof (cases "j = col")
      case True
      then have "mapped ! col \<noteq> []" using j(2) by (auto simp: strip_def)
      then show ?thesis using at True j(2) by (auto simp: strip_nonempty)
    next
      case False
      then show ?thesis using other j(2) by simp
    qed
    then show "any_nonblank (append_text col t mapped)"
      using j(1) len by (auto simp: any_nonblank_iff)
  }
  {
    assume "strip t \<noteq> []"
    then have "strip (append_text col t mapped ! col) \<noteq> []"
      using at by (auto simp: strip_nonempty)
    then show "any_nonblank (append_text col t mapped)"
      using assms len by (auto simp: any_nonblank_iff)
  }
qed

lemma place_cell_keeps:
  assumes "length mapped = length cols" and "cols \<noteq> []"
  shows "length (place_cell cols c mapped) = length cols
       \<and> (any_nonblank mapped \<longrightarrow> any_nonblank (place_cell cols c mapped))
       \<and> ((\<exists>s. snd c = Some s \<and> strip s \<noteq> []) \<longrightarrow> any_nonblank (place_cell cols c mapped))"
proof -
  obtain b t where c: "c = (b, t)" by (cases c)
  have z: "0 < length mapped" using assms by simp
  show ?thesis
  proof (cases t)
    case None
    then show ?thesis using c assms by simp
  next
    case (Some s)
    show ?thesis
    proof (cases b)
      case None
      then show ?thesis using c Some assms append_text_keeps[OF z, of s] by simp
    next
      case (Some bb)
      obtain x0 y0 x1 y1 where bb: "bb = (x0, y0, x1, y1)" by (cases bb)
      define col where "col =
        (let best_col_idx = best_overlap_column x0 x1 cols;
             assigned_col =
               (if best_col_idx \<noteq> - 1 then best_col_idx
                else (let closest_col_idx = closest_column ((x0 + x1) / 2) cols
                      in if closest_col_idx \<noteq> - 1 then closest_col_idx else - 1))
         in if assigned_col \<noteq> - 1 then nat assigned_col else 0)"
      have pc: "place_cell cols c mapped = append_text col s mapped"
        using c \<open>t = Some s\<close> Some bb assms(2) by (simp add: col_def Let_def)
      have "col < length mapped"
        using best_overlap_column_range[of x0 x1 cols] closest_column_range[of "(x0 + x1) / 2" cols]
          assms z
        by (auto simp: col_def Let_def)
      from append_text_keeps[OF this, of s] show ?thesis
        using pc c \<open>t = Some s\<close> assms(1) by simp
    qed
  qed
qed

lemma fold_place_cell_keeps:
  assumes "length mapped = length cols" and "cols \<noteq> []"
  shows "length (fold (place_cell cols) cells mapped) = length cols
       \<and> (any_nonblank mapped \<or> row_not_all_blank cells
            \<longrightarrow> any_nonblank (fold (place_cell cols) cells mapped))"
  using assms(1)
proof (induction cells arbitrary: mapped)
  case Nil
  then show ?case by (simp add: row_not_all_blank_def)
next
  case (Cons c cells)
  note k = place_cell_keeps[OF Cons.prems assms(2), of c]
  from k have l: "length (place_cell cols c mapped) = length cols" by blast
  note IH = Cons.IH[OF l]
  have "any_nonblank (place_cell cols c mapped) \<or> row_not_all_blank cells"
    if "any_nonblank mapped \<or> row_not_all_blank (c # cells)"
  proof -
    from that consider "any_nonblank mapped" | "\<exists>s. snd c = Some s \<and> strip s \<noteq> []"
      | "row_not_all_blank cells"
      by (auto simp: row_not_all_blank_def split: option.splits)
    then show ?thesis using k by cases blast+
  qed
  then show ?case using IH by auto
qed

lemma unmarked_row_entries_nonblank:
  assumes "cols \<noteq> []" and "row_not_all_blank cells"
  shows "\<exists>mapped. unmarked_row_entries cols page_words idx cells =
           [(if no_word_overlaps page_words cells then real idx * 100
             else min_list (map w_y0 (words_in_row page_words cells)), mapped)]
         \<and> length mapped = length cols \<and> any_nonblank mapped"
proof -
  have r: "length (replicate (length cols) ([]::string)) = length cols" by simp
  from fold_place_cell_keeps[OF r assms(1), of cells] assms(2)
  have "length (fold (place_cell cols) cells (replicate (length cols) [])) = length cols"
    "any_nonblank (fold (place_cell cols) cells (replicate (length cols) []))" by blast+
  then show ?thesis
    by (auto simp: unmarked_row_entries_def no_word_overlaps_def Let_def)
qed

lemma create_structured_table_entries:
  assumes "0 \<le> h" and "h < int (length table_rows)"
    and "column_boundaries_of (table_rows ! nat h) \<noteq> []"
    and "r < length table_rows"
    and "e \<in> set (row_entries (column_boundaries_of (table_rows ! nat h)) page_words (r, table_rows ! r))"
  shows "\<exists>tbl. create_structured_table table_rows h page_words = Inr tbl \<and> snd e \<in> set tbl"
proof -
  let ?cols = "column_boundaries_of (table_rows ! nat h)"
  let ?all = "concat (map (row_entries ?cols page_words) (enumerate 0 table_rows))"
  have idx: "py_index table_rows h = Inr (table_rows ! nat h)"
    using assms(1,2) by (simp add: py_index_def)
  have c: "create_structured_table table_rows h page_words = Inr (map snd (sort_key fst ?all))"
    using assms(1,2,3) idx by (simp add: create_structured_table_def Let_def)
  have "(r, table_rows ! r) \<in> set (enumerate 0 table_rows)"
    using assms(4) by (simp add: in_set_enumerate_eq)
  then have "e \<in> set ?all" using assms(5) by auto
  then have "snd e \<in> set (map snd (sort_key fst ?all))" by simp
  then show ?thesis using c by blast
qed


text \<open>
  Claim C9, as the code has it. In a table whose header row gives at least one column
  boundary, a row without marked cell whose cells are not all blank contributes exactly
  one entry to the structured table; its sort key is the row index times 100 when no
  page word lies in the row's vertical span, and the smallest top of those words
  otherwise. (A row with a marked cell is rebuilt from the page words in its span
  alone, so without such words it contributes nothing.)
\<close>

theorem unmarked_row_keeps_entry:
  assumes "0 \<le> h" and "h < int (length table_rows)"
    and "column_boundaries_of (table_rows ! nat h) \<noteq> []"
    and "r < length table_rows"
    and "\<not> has_marked_cells (table_rows ! r)"
    and "row_not_all_blank (table_rows ! r)"
  shows "\<exists>mapped tbl.
           row_entries (column_boundaries_of (table_rows ! nat h)) page_words (r, table_rows ! r) =
             [(if no_word_overlaps page_words (table_rows ! r) then real r * 100
               else min_list (map w_y0 (words_in_row page_words (table_rows ! r))), mapped)]
         \<and> length mapped = length (column_boundaries_of (table_rows ! nat h))
         \<and> any_nonblank mapped
         \<and> create_structured_table table_rows h page_words = Inr tbl \<and> mapped \<in> set tbl"
proof -
  let ?cols = "column_boundaries_of (table_rows ! nat h)"
  from unmarked_row_entries_nonblank[OF assms(3,6), of page_words r]
  obtain mapped where m: "unmarked_row_entries ?cols page_words r (table_rows ! r) =
           [(if no_word_overlaps page_words (table_rows ! r) then real r * 100
             else min_list (map w_y0 (words_in_row page_words (table_rows ! r))), mapped)]"
    "length mapped = length ?cols" "any_nonblank mapped" by blast
  have re: "row_entries ?cols page_words (r, table_rows ! r) =
           [(if no_word_overlaps page_words (table_rows ! r) then real r * 100
             else min_list (map w_y0 (words_in_row page_words (table_rows ! r))), mapped)]"
    using m(1) assms(5) by (simp add: row_entries_def)
  then have "(if no_word_overlaps page_words (table_rows ! r) then real r * 100
             else min_list (map w_y0 (words_in_row page_words (table_rows ! r))), mapped)
      \<in> set (row_entries ?cols page_words (r, table_rows ! r))" by simp
  from create_structured_table_entries[OF assms(1,2,3,4) this]
  obtain tbl where "create_structured_table table_rows h page_words = Inr tbl" "mapped \<in> set tbl"
    by auto
  then show ?thesis using re m(2,3) by blast
qed

theorem unmarked_row_keeps_entry_witness:
  "create_structured_table
     [[(Some (0, 0, 50, 10), Some ''Item''), (Some (50, 0, 100, 10), Some ''Qty'')],
      [(Some (0, 10, 50, 20), Some ''bolt''), (None, Some ''7'')]] 0 []
   = Inr [[''Item'', ''Qty''], [''bolt 7'', '''']]
   \<and> row_entries [(0, 50), (50, 100)] [] (1, [(Some (0, 10, 50, 20), Some ''bolt''), (None, Some ''7'')])
   = [(100, [''bolt 7'', ''''])]"
proof -
  have a: "column_boundaries_of
     ([[(Some (0, 0, 50, 10), Some ''Item''), (Some (50, 0, 100, 10), Some ''Qty'')],
      [(Some (0, 10, 50, 20), Some ''bolt''), (None, Some ''7'')]] ! nat 0) \<noteq> []"
    by code_simp
  have b: "\<not> has_marked_cells
     ([[(Some (0, 0, 50, 10), Some ''Item''), (Some (50, 0, 100, 10), Some ''Qty'')],
      [(Some (0::real, 10::real, 50::real, 20::real), Some ''bolt''), (None, Some ''7'')]] ! 1)"
    by code_simp
  have c: "row_not_all_blank
     ([[(Some (0, 0, 50, 10), Some ''Item''), (Some (50, 0, 100, 10), Some ''Qty'')],
      [(Some (0::real, 10::real, 50::real, 20::real), Some ''bolt''), (None, Some ''7'')]] ! 1)"
    by code_simp
  have d: "create_structured_table
     [[(Some (0, 0, 50, 10), Some ''Item''), (Some (50, 0, 100, 10), Some ''Qty'')],
      [(Some (0, 10, 50, 20), Some ''bolt''), (None, Some ''7'')]] 0 []
   = Inr [[''Item'', ''Qty''], [''bolt 7'', '''']]"
    by code_simp
  have e: "row_entries [(0, 50), (50, 100)] [] (1, [(Some (0, 10, 50, 20), Some ''bolt''), (None, Some ''7'')])
   = [(100, [''bolt 7'', ''''])]"
    by code_simp
  from unmarked_row_keeps_entry[OF _ _ a _ b c, of "[]"] d e show ?thesis by simp
qed

theorem marked_row_without_words_dropped_counterexample:
  "has_marked_cells [(Some (0, 10, 100, 20), Some ''#$ ab cd''), (None, None), (None, None)]
   \<and> row_not_all_blank [(Some (0, 10, 100, 20), Some ''#$ ab cd''), (None, None), (None, None)]
   \<and> no_word_overlaps [] [(Some (0, 10, 100, 20), Some ''#$ ab cd''), (None, None), (None, None)]
   \<and> row_entries [(0, 50), (50, 100), (100, 150)] []
        (1, [(Some (0, 10, 100, 20), Some ''#$ ab cd''), (None, None), (None, None)]) = []
   \<and> create_structured_table
       [[(Some (0, 0, 50, 10), Some ''Item''), (Some (50, 0, 100, 10), Some ''Qty''),
         (Some (100, 0, 150, 10), Some ''Rate'')],
        [(Some (0, 10, 100, 20), Some ''#$ ab cd''), (None, None), (None, None)]] 0 []
     = Inr [[''Item'', ''Qty'', ''Rate'']]"
  by code_simp

end
